theory Spec2Isabelle
  imports Complex_Main "HOL-Library.Multiset" "HOL-Library.Product_Lexorder" "HOL-Library.Monad_Syntax" "HOL-Library.Sublist"
    "HOL-Library.Log_Nat"
begin

section \<open>Data model of the reconstruction engine\<close>

text \<open>
  The engine works on \<^verbatim>\<open>QVector3D\<close> positions and on \<^verbatim>\<open>int\<close> point indices.
  Coordinates are modelled as exact reals in the sections on the three steps; the checks of
  Step 2 are modelled once more with the rounding of the 32-bit floats in the section on
  32-bit floating point. Indices are modelled as unbounded integers (the code casts
  \<^verbatim>\<open>size_t\<close> to \<^verbatim>\<open>int\<close>, which is exact for fewer than \<open>2^31\<close> points).
\<close>

type_synonym Vector3 = "real \<times> real \<times> real"

record MeshPoint =
  pos :: Vector3
  required_neighbors :: int

text \<open>
  \<^verbatim>\<open>std::unordered_set<int>\<close> is modelled by the list of its elements in iteration order
  (a list without repetitions); \<^verbatim>\<open>std::unordered_map\<close> by a partial map, since the engine
  only looks keys up (\<^verbatim>\<open>count\<close>, \<^verbatim>\<open>at\<close>, \<^verbatim>\<open>operator[]\<close>).
\<close>

type_synonym AdjacencyGraph = "int \<rightharpoonup> int list"

type_synonym QuadFace = "int \<times> int \<times> int \<times> int"

type_synonym Hexahedron = "int \<times> int \<times> int \<times> int \<times> int \<times> int \<times> int \<times> int"

subsection \<open>The operations of QVector3D used by the engine\<close>

fun vsub :: "Vector3 \<Rightarrow> Vector3 \<Rightarrow> Vector3" where
  "vsub (x1, y1, z1) (x2, y2, z2) = (x1 - x2, y1 - y2, z1 - z2)"

fun dotProduct :: "Vector3 \<Rightarrow> Vector3 \<Rightarrow> real" where
  "dotProduct (x1, y1, z1) (x2, y2, z2) = x1 * x2 + y1 * y2 + z1 * z2"

fun crossProduct :: "Vector3 \<Rightarrow> Vector3 \<Rightarrow> Vector3" where
  "crossProduct (x1, y1, z1) (x2, y2, z2) =
     (y1 * z2 - z1 * y2, z1 * x2 - x1 * z2, x1 * y2 - y1 * x2)"

fun lengthSquared :: "Vector3 \<Rightarrow> real" where
  "lengthSquared (x, y, z) = x * x + y * y + z * z"

definition distanceToPoint :: "Vector3 \<Rightarrow> Vector3 \<Rightarrow> real" where
  "distanceToPoint p q = sqrt (lengthSquared (vsub p q))"

subsection \<open>Containers\<close>

text \<open>\<^verbatim>\<open>unordered_set::insert\<close>: an element already present is not stored again.\<close>

definition uset_insert :: "int \<Rightarrow> int list \<Rightarrow> int list" where
  "uset_insert x s = (if x \<in> set s then s else s @ [x])"

text \<open>The index pairs \<open>i < j\<close> of a doubly nested iteration, as the pairs of elements they select.\<close>

fun pairs_of :: "'a list \<Rightarrow> ('a \<times> 'a) list" where
  "pairs_of [] = []"
| "pairs_of (x # xs) = map (Pair x) xs @ pairs_of xs"

section \<open>Step 1: buildAdjacencyGraph\<close>

text \<open>The vector \<^verbatim>\<open>distances\<close> of point \<open>i\<close>, before sorting.\<close>

definition distances_from :: "MeshPoint list \<Rightarrow> nat \<Rightarrow> (real \<times> int) list" where
  "distances_from points i =
     map (\<lambda>j. (distanceToPoint (pos (points ! i)) (pos (points ! j)), int j))
         (filter (\<lambda>j. i \<noteq> j) [0..<length points])"

text \<open>
  The loop \<^verbatim>\<open>for (int k = 0; k < k_neighbors && k < (int)distances.size(); ++k)\<close>,
  started at any \<open>k\<close>.
\<close>

function insert_nearest :: "int \<Rightarrow> int \<Rightarrow> (real \<times> int) list \<Rightarrow> int list \<Rightarrow> int list" where
  "insert_nearest k k_neighbors distances s =
     (if k < k_neighbors \<and> k < int (length distances)
      then insert_nearest (k + 1) k_neighbors distances (uset_insert (snd (distances ! nat k)) s)
      else s)"
  by pat_completeness auto
termination
  by (relation "measure (\<lambda>(k, k_neighbors, distances, s). nat (int (length distances) - k))") auto

declare insert_nearest.simps [simp del]

text \<open>
  \<^verbatim>\<open>std::sort\<close> on pairs orders them by distance, then by index; the indices are pairwise
  different, so the sorted vector is determined.
\<close>

definition neighbors_of :: "MeshPoint list \<Rightarrow> nat \<Rightarrow> int list" where
  "neighbors_of points i =
     insert_nearest 0 (required_neighbors (points ! i)) (sort (distances_from points i)) []"

definition buildAdjacencyGraph :: "MeshPoint list \<Rightarrow> AdjacencyGraph" where
  "buildAdjacencyGraph points =
     (if points = [] then Map.empty
      else fold (\<lambda>i adjGraph. adjGraph(int i \<mapsto> neighbors_of points i))
             [0..<length points] Map.empty)"

section \<open>Step 2: findValidFaces\<close>

text \<open>
  \<^verbatim>\<open>points[k]\<close> on a \<^verbatim>\<open>std::vector\<close>: defined only for \<open>0 \<le> k < size\<close>. A read outside
  the vector is undefined behaviour, which the model records as \<open>None\<close>.
\<close>

definition point_at :: "MeshPoint list \<Rightarrow> int \<Rightarrow> MeshPoint option" where
  "point_at points k =
     (if 0 \<le> k \<and> k < int (length points) then Some (points ! nat k) else None)"

definition arePointsCoplanar :: "MeshPoint list \<Rightarrow> QuadFace \<Rightarrow> real \<Rightarrow> bool option" where
  "arePointsCoplanar points face tolerance =
     (case face of (f0, f1, f2, f3) \<Rightarrow>
        if f0 \<ge> int (length points) \<or> f1 \<ge> int (length points) \<or>
           f2 \<ge> int (length points) \<or> f3 \<ge> int (length points) then Some False
        else do {
          m0 \<leftarrow> point_at points f0;
          m1 \<leftarrow> point_at points f1;
          m2 \<leftarrow> point_at points f2;
          m3 \<leftarrow> point_at points f3;
          let v1 = vsub (pos m1) (pos m0);
          let v2 = vsub (pos m2) (pos m0);
          let v3 = vsub (pos m3) (pos m0);
          let volume = dotProduct v1 (crossProduct v2 v3);
          Some (\<bar>volume\<bar> < tolerance)
        })"

text \<open>The default argument \<^verbatim>\<open>tolerance = 1e-3f\<close> and the factor \<^verbatim>\<open>1.01f\<close>.\<close>

definition default_tolerance :: real where
  "default_tolerance = 1 / 1000"

definition diagonal_factor :: real where
  "diagonal_factor = 101 / 100"

definition sortedFace :: "QuadFace \<Rightarrow> int list" where
  "sortedFace face = (case face of (p0, p1, p2, p3) \<Rightarrow> sort [p0, p1, p2, p3])"

text \<open>
  The state of the search: \<^verbatim>\<open>validFaces\<close> and \<^verbatim>\<open>uniqueFaces\<close>. A loop over a
  container whose body may read outside \<^verbatim>\<open>points\<close> is a fold that stops at \<open>None\<close>.
\<close>

type_synonym face_state = "QuadFace list \<times> int list set"

fun foldM :: "('a \<Rightarrow> 's \<Rightarrow> 's option) \<Rightarrow> 'a list \<Rightarrow> 's \<Rightarrow> 's option" where
  "foldM f [] s = Some s"
| "foldM f (x # xs) s = (case f x s of None \<Rightarrow> None | Some s' \<Rightarrow> foldM f xs s')"

text \<open>The body of the innermost loop, from \<^verbatim>\<open>arePointsCoplanar\<close> on.\<close>

definition check_face :: "MeshPoint list \<Rightarrow> QuadFace \<Rightarrow> face_state \<Rightarrow> face_state option" where
  "check_face points potentialFace st =
     (case potentialFace of (p0_idx, p1_idx, p2_idx, p3_idx) \<Rightarrow>
     (case st of (validFaces, uniqueFaces) \<Rightarrow> do {
        coplanar \<leftarrow> arePointsCoplanar points potentialFace default_tolerance;
        if coplanar then do {
          m0 \<leftarrow> point_at points p0_idx;
          m1 \<leftarrow> point_at points p1_idx;
          m2 \<leftarrow> point_at points p2_idx;
          m3 \<leftarrow> point_at points p3_idx;
          let edge01_sq = lengthSquared (vsub (pos m0) (pos m1));
          let edge12_sq = lengthSquared (vsub (pos m1) (pos m2));
          let edge23_sq = lengthSquared (vsub (pos m2) (pos m3));
          let edge30_sq = lengthSquared (vsub (pos m3) (pos m0));
          let diag02_sq = lengthSquared (vsub (pos m0) (pos m2));
          let diag13_sq = lengthSquared (vsub (pos m1) (pos m3));
          let max_edge_sq = max (max (max edge01_sq edge12_sq) edge23_sq) edge30_sq;
          if diag02_sq > max_edge_sq * diagonal_factor \<and> diag13_sq > max_edge_sq * diagonal_factor
          then (if sortedFace potentialFace \<in> uniqueFaces then Some st
                else Some (validFaces @ [potentialFace],
                           insert (sortedFace potentialFace) uniqueFaces))
          else Some st
        } else Some st
      }))"

text \<open>The loop over \<^verbatim>\<open>p2_idx\<close>, for neighbours \<open>p1_idx\<close>, \<open>p3_idx\<close> of \<open>p0_idx\<close>.\<close>

definition faces_of_pair ::
  "MeshPoint list \<Rightarrow> AdjacencyGraph \<Rightarrow> int \<Rightarrow> int \<times> int \<Rightarrow> face_state \<Rightarrow> face_state option" where
  "faces_of_pair points adjGraph p0_idx pr st =
     (case pr of (p1_idx, p3_idx) \<Rightarrow>
        (case adjGraph p1_idx of None \<Rightarrow> Some st
         | Some adj1 \<Rightarrow>
           (case adjGraph p3_idx of None \<Rightarrow> Some st
            | Some adj3 \<Rightarrow>
                foldM (\<lambda>p2_idx st'.
                         if p2_idx \<noteq> p0_idx \<and> p2_idx \<in> set adj3
                         then check_face points (p0_idx, p1_idx, p2_idx, p3_idx) st'
                         else Some st')
                      adj1 st)))"

text \<open>The body of the loop over \<^verbatim>\<open>p0_idx\<close>.\<close>

definition faces_of_point ::
  "MeshPoint list \<Rightarrow> AdjacencyGraph \<Rightarrow> int \<Rightarrow> face_state \<Rightarrow> face_state option" where
  "faces_of_point points adjGraph p0_idx st =
     (case adjGraph p0_idx of None \<Rightarrow> Some st
      | Some neighbors \<Rightarrow> foldM (faces_of_pair points adjGraph p0_idx) (pairs_of neighbors) st)"

definition findValidFaces :: "MeshPoint list \<Rightarrow> AdjacencyGraph \<Rightarrow> QuadFace list option" where
  "findValidFaces points adjGraph =
     map_option fst
       (foldM (faces_of_point points adjGraph) (map int [0..<length points]) ([], {}))"

section \<open>Step 3: buildHexahedra\<close>

fun face_list :: "QuadFace \<Rightarrow> int list" where
  "face_list (a, b, c, d) = [a, b, c, d]"

fun hex_list :: "Hexahedron \<Rightarrow> int list" where
  "hex_list (a, b, c, d, e, f, g, h) = [a, b, c, d, e, f, g, h]"

text \<open>Check 1: no point of \<^verbatim>\<open>face2\<close> is in \<^verbatim>\<open>face1_pts\<close>.\<close>

definition faces_disjoint :: "QuadFace \<Rightarrow> QuadFace \<Rightarrow> bool" where
  "faces_disjoint face1 face2 = (\<not> list_ex (\<lambda>p. p \<in> set (face_list face1)) (face_list face2))"

text \<open>Check 2: the vector \<^verbatim>\<open>connecting_edges\<close>, in the order in which it is filled.\<close>

definition connecting_edges :: "AdjacencyGraph \<Rightarrow> QuadFace \<Rightarrow> QuadFace \<Rightarrow> (int \<times> int) list" where
  "connecting_edges adjGraph face1 face2 =
     concat (map (\<lambda>p1. case adjGraph p1 of None \<Rightarrow> []
                       | Some adj1 \<Rightarrow> map (Pair p1) (filter (\<lambda>p2. p2 \<in> set adj1) (face_list face2)))
                 (face_list face1))"

text \<open>The hexahedron filled from four connecting edges: slots 0-3 the first, 4-7 the second ends.\<close>

definition hex_of_edges :: "(int \<times> int) list \<Rightarrow> Hexahedron" where
  "hex_of_edges es =
     (fst (es ! 0), fst (es ! 1), fst (es ! 2), fst (es ! 3),
      snd (es ! 0), snd (es ! 1), snd (es ! 2), snd (es ! 3))"

text \<open>The body of the iteration over face pairs: the candidates it pushes (none or one).\<close>

definition hex_of_pair :: "AdjacencyGraph \<Rightarrow> QuadFace \<times> QuadFace \<Rightarrow> Hexahedron list" where
  "hex_of_pair adjGraph pr =
     (case pr of (face1, face2) \<Rightarrow>
      if \<not> faces_disjoint face1 face2 then []
      else (let edges = connecting_edges adjGraph face1 face2 in
            if length edges = 4 then
              (if card (set (map fst edges)) = 4 \<and> card (set (map snd edges)) = 4
               then [hex_of_edges edges] else [])
            else []))"

definition candidateHexahedra :: "QuadFace list \<Rightarrow> AdjacencyGraph \<Rightarrow> Hexahedron list" where
  "candidateHexahedra validFaces adjGraph = concat (map (hex_of_pair adjGraph) (pairs_of validFaces))"

definition sortedHex :: "Hexahedron \<Rightarrow> int list" where
  "sortedHex hex = sort (hex_list hex)"

text \<open>The body of the deduplication loop, on \<^verbatim>\<open>finalHexahedra\<close> and \<^verbatim>\<open>uniqueHexes\<close>.\<close>

definition dedup_hex ::
  "Hexahedron \<Rightarrow> Hexahedron list \<times> int list set \<Rightarrow> Hexahedron list \<times> int list set" where
  "dedup_hex hex st =
     (case st of (finalHexahedra, uniqueHexes) \<Rightarrow>
        if card (set (sortedHex hex)) \<noteq> 8 then st
        else if sortedHex hex \<in> uniqueHexes then st
        else (finalHexahedra @ [hex], insert (sortedHex hex) uniqueHexes))"

definition buildHexahedra :: "QuadFace list \<Rightarrow> AdjacencyGraph \<Rightarrow> Hexahedron list" where
  "buildHexahedra validFaces adjGraph =
     fst (fold dedup_hex (candidateHexahedra validFaces adjGraph) ([], {}))"

section \<open>Notions used to state the properties\<close>

text \<open>The two halves of a hexahedron: slots 0-3 and slots 4-7.\<close>

fun hex_first :: "Hexahedron \<Rightarrow> int list" where
  "hex_first (a, b, c, d, e, f, g, h) = [a, b, c, d]"

fun hex_last :: "Hexahedron \<Rightarrow> int list" where
  "hex_last (a, b, c, d, e, f, g, h) = [e, f, g, h]"

text \<open>\<open>b\<close> is in the adjacency set of \<open>a\<close>: \<^verbatim>\<open>adjGraph.count(a) && adjGraph.at(a).count(b)\<close>.\<close>

definition graph_edge :: "AdjacencyGraph \<Rightarrow> int \<Rightarrow> int \<Rightarrow> bool" where
  "graph_edge adjGraph a b = (case adjGraph a of None \<Rightarrow> False | Some adj \<Rightarrow> b \<in> set adj)"

text \<open>
  Deduplication as the specification words it: going through a list, an element is kept when
  no earlier element has the same canonical key, and it is kept as it is.
\<close>

fun first_occurrences :: "('a \<Rightarrow> 'k) \<Rightarrow> 'a list \<Rightarrow> 'a list" where
  "first_occurrences key [] = []"
| "first_occurrences key (x # xs) = x # first_occurrences key (filter (\<lambda>y. key y \<noteq> key x) xs)"

text \<open>The position of the point with index \<open>k\<close> (for \<open>k\<close> inside the point sequence).\<close>

definition position :: "MeshPoint list \<Rightarrow> int \<Rightarrow> Vector3" where
  "position points k = pos (points ! nat k)"

text \<open>
  The face candidates for which arePointsCoplanar reads outside the point vector: no index is
  at or above the size, so the guard lets the candidate through, and some index is negative.
\<close>

definition reads_outside :: "MeshPoint list \<Rightarrow> QuadFace \<Rightarrow> bool" where
  "reads_outside points face =
     (case face of (f0, f1, f2, f3) \<Rightarrow>
        (f0 < int (length points) \<and> f1 < int (length points) \<and>
         f2 < int (length points) \<and> f3 < int (length points)) \<and>
        (f0 < 0 \<or> f1 < 0 \<or> f2 < 0 \<or> f3 < 0))"

text \<open>
  The two geometric checks of findValidFaces on a candidate whose indices are inside the
  point sequence: coplanarity, and both diagonals against the longest edge.
\<close>

definition passes_checks :: "MeshPoint list \<Rightarrow> QuadFace \<Rightarrow> bool" where
  "passes_checks points face =
     (case face of (p0, p1, p2, p3) \<Rightarrow>
        list_all (\<lambda>k. 0 \<le> k \<and> k < int (length points)) [p0, p1, p2, p3] \<and>
        \<bar>dotProduct (vsub (position points p1) (position points p0))
           (crossProduct (vsub (position points p2) (position points p0))
                         (vsub (position points p3) (position points p0)))\<bar> < default_tolerance \<and>
        (let max_edge_sq =
               max (max (max (lengthSquared (vsub (position points p0) (position points p1)))
                             (lengthSquared (vsub (position points p1) (position points p2))))
                        (lengthSquared (vsub (position points p2) (position points p3))))
                   (lengthSquared (vsub (position points p3) (position points p0)))
         in lengthSquared (vsub (position points p0) (position points p2)) > max_edge_sq * diagonal_factor \<and>
            lengthSquared (vsub (position points p1) (position points p3)) > max_edge_sq * diagonal_factor))"

text \<open>One step of a deduplication loop: keep the element if it is acceptable and its key is new.\<close>

definition keep_new ::
  "('a \<Rightarrow> 'k) \<Rightarrow> ('a \<Rightarrow> bool) \<Rightarrow> 'a \<Rightarrow> 'a list \<times> 'k set \<Rightarrow> 'a list \<times> 'k set" where
  "keep_new key ok c st =
     (case st of (kept, keys) \<Rightarrow>
        if ok c \<and> key c \<notin> keys then (kept @ [c], insert (key c) keys) else st)"

text \<open>
  The face candidates in the order in which findValidFaces reaches them: for each point,
  for the pairs of its neighbours, for the neighbours of the first of the pair.
\<close>

definition candidates_of_pair :: "AdjacencyGraph \<Rightarrow> int \<Rightarrow> int \<times> int \<Rightarrow> QuadFace list" where
  "candidates_of_pair adjGraph p0_idx pr =
     (case pr of (p1_idx, p3_idx) \<Rightarrow>
        (case adjGraph p1_idx of None \<Rightarrow> []
         | Some adj1 \<Rightarrow>
           (case adjGraph p3_idx of None \<Rightarrow> []
            | Some adj3 \<Rightarrow>
                map (\<lambda>p2_idx. (p0_idx, p1_idx, p2_idx, p3_idx))
                    (filter (\<lambda>p2_idx. p2_idx \<noteq> p0_idx \<and> p2_idx \<in> set adj3) adj1))))"

definition candidates_of_point :: "AdjacencyGraph \<Rightarrow> int \<Rightarrow> QuadFace list" where
  "candidates_of_point adjGraph p0_idx =
     (case adjGraph p0_idx of None \<Rightarrow> []
      | Some neighbors \<Rightarrow> concat (map (candidates_of_pair adjGraph p0_idx) (pairs_of neighbors)))"

definition faceCandidates :: "MeshPoint list \<Rightarrow> AdjacencyGraph \<Rightarrow> QuadFace list" where
  "faceCandidates points adjGraph =
     concat (map (candidates_of_point adjGraph) (map int [0..<length points]))"

text \<open>The squared distance between the points with the two indices.\<close>

definition edge_sq :: "MeshPoint list \<Rightarrow> int \<Rightarrow> int \<Rightarrow> real" where
  "edge_sq points a b = lengthSquared (vsub (position points a) (position points b))"

text \<open>No adjacency set holds a negative index.\<close>

definition nonneg_graph :: "AdjacencyGraph \<Rightarrow> bool" where
  "nonneg_graph adjGraph = (\<forall>k adj. adjGraph k = Some adj \<longrightarrow> (\<forall>x \<in> set adj. 0 \<le> x))"

text \<open>
  Two graphs with the same keys and the same adjacency sets, whatever the order in which each
  set is iterated; a graph whose adjacency lists have no repetition, as an unordered_set has.
\<close>

definition same_adjacency :: "AdjacencyGraph \<Rightarrow> AdjacencyGraph \<Rightarrow> bool" where
  "same_adjacency g g' = (\<forall>k. rel_option (\<lambda>a b. set a = set b) (g k) (g' k))"

definition distinct_adjacency :: "AdjacencyGraph \<Rightarrow> bool" where
  "distinct_adjacency g = (\<forall>k adj. g k = Some adj \<longrightarrow> distinct adj)"

text \<open>Every edge is present in both directions.\<close>

definition symmetric_graph :: "AdjacencyGraph \<Rightarrow> bool" where
  "symmetric_graph g = (\<forall>a b. graph_edge g a b \<longrightarrow> graph_edge g b a)"

text \<open>
  The graph edges from one vertex set to another, and the condition under which two
  vertex sets of size four are joined into a hexahedron, stated on the sets.
\<close>

definition edges_between :: "AdjacencyGraph \<Rightarrow> int set \<Rightarrow> int set \<Rightarrow> (int \<times> int) set" where
  "edges_between g S1 S2 = {(a, b). a \<in> S1 \<and> b \<in> S2 \<and> graph_edge g a b}"

definition joinable :: "AdjacencyGraph \<Rightarrow> int set \<Rightarrow> int set \<Rightarrow> bool" where
  "joinable g S1 S2 \<longleftrightarrow>
     S1 \<inter> S2 = {} \<and> card (edges_between g S1 S2) = 4 \<and>
     fst ` edges_between g S1 S2 = S1 \<and> snd ` edges_between g S1 S2 = S2"

text \<open>The same 4-cycle from the same first vertex, walked the other way round.\<close>

fun flip_face :: "QuadFace \<Rightarrow> QuadFace" where
  "flip_face (p0, p1, p2, p3) = (p0, p3, p2, p1)"

section \<open>The coordinator and the reference point layout\<close>

text \<open>
  The data containers of MainWindow, and its three step slots. Each slot stores the result
  of one engine function; step 2 has no result when findValidFaces reads outside the points.
\<close>

record MainWindow =
  m_points :: "MeshPoint list"
  m_adjGraph :: AdjacencyGraph
  m_faces :: "QuadFace list"
  m_hexahedra :: "Hexahedron list"

definition onStep1_BuildGraph :: "MainWindow \<Rightarrow> MainWindow" where
  "onStep1_BuildGraph w = w\<lparr>m_adjGraph := buildAdjacencyGraph (m_points w)\<rparr>"

definition onStep2_FindFaces :: "MainWindow \<Rightarrow> MainWindow option" where
  "onStep2_FindFaces w =
     (case findValidFaces (m_points w) (m_adjGraph w) of
        None \<Rightarrow> None
      | Some faces \<Rightarrow> Some (w\<lparr>m_faces := faces\<rparr>))"

definition onStep3_BuildHexahedra :: "MainWindow \<Rightarrow> MainWindow" where
  "onStep3_BuildHexahedra w = w\<lparr>m_hexahedra := buildHexahedra (m_faces w) (m_adjGraph w)\<rparr>"

definition run_steps :: "MainWindow \<Rightarrow> MainWindow option" where
  "run_steps w = map_option onStep3_BuildHexahedra (onStep2_FindFaces (onStep1_BuildGraph w))"

text \<open>
  The sixteen points loaded by the constructor of MainWindow, with their required neighbour
  counts, and the window after the constructor's reset.
\<close>

definition mesh_point :: "real \<Rightarrow> real \<Rightarrow> real \<Rightarrow> int \<Rightarrow> MeshPoint" where
  "mesh_point x y z k = \<lparr>pos = (x, y, z), required_neighbors = k\<rparr>"

definition reference_points :: "MeshPoint list" where
  "reference_points =
     [mesh_point (- (1 / 5)) 0 0 3, mesh_point 1 0 0 3, mesh_point 1 1 0 3, mesh_point 0 1 0 3,
      mesh_point 0 0 1 4, mesh_point 1 0 1 4, mesh_point 1 1 1 4, mesh_point 0 1 1 4,
      mesh_point 0 0 2 4, mesh_point 1 0 2 4, mesh_point 1 1 2 4, mesh_point 0 1 2 4,
      mesh_point 0 0 3 3, mesh_point 1 0 3 3, mesh_point 1 1 3 3, mesh_point 0 1 3 3]"

definition initial_window :: MainWindow where
  "initial_window =
     \<lparr>m_points = reference_points, m_adjGraph = Map.empty, m_faces = [], m_hexahedra = []\<rparr>"

text \<open>
  The graph, the face candidates, the candidates that pass the checks and the faces of the
  reference layout, as the evaluation below finds them.
\<close>

definition reference_graph :: AdjacencyGraph where
  "reference_graph = [0 \<mapsto> [3, 4, 1], 1 \<mapsto> [2, 5, 0], 2 \<mapsto> [1, 3, 6], 3 \<mapsto> [2, 7, 0],
              4 \<mapsto> [5, 7, 8, 0], 5 \<mapsto> [1, 4, 6, 9], 6 \<mapsto> [2, 5, 7, 10], 7 \<mapsto> [3, 4, 6, 11],
              8 \<mapsto> [4, 9, 11, 12], 9 \<mapsto> [5, 8, 10, 13], 10 \<mapsto> [6, 9, 11, 14],
              11 \<mapsto> [7, 8, 10, 15], 12 \<mapsto> [8, 13, 15], 13 \<mapsto> [9, 12, 14],
              14 \<mapsto> [10, 13, 15], 15 \<mapsto> [11, 12, 14]]"

definition reference_candidates :: "QuadFace list" where
  "reference_candidates =
    [(0, 3, 7, 4), (0, 3, 2, 1), (0, 4, 5, 1), (1, 2, 6, 5), (1, 2, 3, 0),
     (1, 5, 4, 0), (2, 1, 0, 3), (2, 1, 5, 6), (2, 3, 7, 6), (3, 2, 6, 7),
     (3, 2, 1, 0), (3, 7, 4, 0), (4, 5, 6, 7), (4, 5, 9, 8), (4, 5, 1, 0),
     (4, 7, 11, 8), (4, 7, 3, 0), (5, 1, 0, 4), (5, 1, 2, 6), (5, 4, 7, 6),
     (5, 4, 8, 9), (5, 6, 10, 9), (6, 2, 1, 5), (6, 2, 3, 7), (6, 5, 4, 7),
     (6, 5, 9, 10), (6, 7, 11, 10), (7, 3, 0, 4), (7, 3, 2, 6),
     (7, 4, 5, 6), (7, 4, 8, 11), (7, 6, 10, 11), (8, 4, 5, 9),
     (8, 4, 7, 11), (8, 9, 10, 11), (8, 9, 13, 12), (8, 11, 15, 12),
     (9, 5, 4, 8), (9, 5, 6, 10), (9, 8, 11, 10), (9, 8, 12, 13),
     (9, 10, 14, 13), (10, 6, 5, 9), (10, 6, 7, 11), (10, 9, 8, 11),
     (10, 9, 13, 14), (10, 11, 15, 14), (11, 7, 4, 8), (11, 7, 6, 10),
     (11, 8, 9, 10), (11, 8, 12, 15), (11, 10, 14, 15), (12, 8, 9, 13),
     (12, 8, 11, 15), (12, 13, 14, 15), (13, 9, 8, 12), (13, 9, 10, 14),
     (13, 12, 15, 14), (14, 10, 9, 13), (14, 10, 11, 15), (14, 13, 12, 15),
     (15, 11, 8, 12), (15, 11, 10, 14), (15, 12, 13, 14)]"

definition reference_passing :: "QuadFace list" where
  "reference_passing =
    [(0, 3, 2, 1), (0, 4, 5, 1), (1, 2, 6, 5), (1, 2, 3, 0), (1, 5, 4, 0),
     (2, 1, 0, 3), (2, 1, 5, 6), (2, 3, 7, 6), (3, 2, 6, 7), (3, 2, 1, 0),
     (4, 5, 6, 7), (4, 5, 9, 8), (4, 5, 1, 0), (4, 7, 11, 8), (5, 1, 0, 4),
     (5, 1, 2, 6), (5, 4, 7, 6), (5, 4, 8, 9), (5, 6, 10, 9), (6, 2, 1, 5),
     (6, 2, 3, 7), (6, 5, 4, 7), (6, 5, 9, 10), (6, 7, 11, 10),
     (7, 3, 2, 6), (7, 4, 5, 6), (7, 4, 8, 11), (7, 6, 10, 11),
     (8, 4, 5, 9), (8, 4, 7, 11), (8, 9, 10, 11), (8, 9, 13, 12),
     (8, 11, 15, 12), (9, 5, 4, 8), (9, 5, 6, 10), (9, 8, 11, 10),
     (9, 8, 12, 13), (9, 10, 14, 13), (10, 6, 5, 9), (10, 6, 7, 11),
     (10, 9, 8, 11), (10, 9, 13, 14), (10, 11, 15, 14), (11, 7, 4, 8),
     (11, 7, 6, 10), (11, 8, 9, 10), (11, 8, 12, 15), (11, 10, 14, 15),
     (12, 8, 9, 13), (12, 8, 11, 15), (12, 13, 14, 15), (13, 9, 8, 12),
     (13, 9, 10, 14), (13, 12, 15, 14), (14, 10, 9, 13), (14, 10, 11, 15),
     (14, 13, 12, 15), (15, 11, 8, 12), (15, 11, 10, 14), (15, 12, 13, 14)]"

definition reference_faces :: "QuadFace list" where
  "reference_faces =
    [(0, 3, 2, 1), (0, 4, 5, 1), (1, 2, 6, 5), (2, 3, 7, 6), (4, 5, 6, 7),
     (4, 5, 9, 8), (4, 7, 11, 8), (5, 6, 10, 9), (6, 7, 11, 10),
     (8, 9, 10, 11), (8, 9, 13, 12), (8, 11, 15, 12), (9, 10, 14, 13),
     (10, 11, 15, 14), (12, 13, 14, 15)]"

text \<open>The squared distances from point i, paired with the indices: the same order as the distances.\<close>

definition sq_distances_from :: "MeshPoint list \<Rightarrow> nat \<Rightarrow> (real \<times> int) list" where
  "sq_distances_from points i =
     map (\<lambda>j. (lengthSquared (vsub (pos (points ! i)) (pos (points ! j))), int j))
         (filter (\<lambda>j. i \<noteq> j) [0..<length points])"

section \<open>Step 2 in 32-bit floating point\<close>

subsection \<open>Binary32 arithmetic\<close>

text \<open>
  \<^verbatim>\<open>QVector3D\<close> holds three \<^verbatim>\<open>float\<close> coordinates, and findValidFaces and
  arePointsCoplanar compute in \<^verbatim>\<open>float\<close>. A \<^verbatim>\<open>float\<close> is taken to be an IEEE 754 binary32
  number and every operation to be rounded on its own to the nearest binary32 number, ties to
  the even significand (no fused multiply-add, no wider intermediate precision). A finite
  value is modelled by the real number it stands for; the two zeros are not told apart, since
  no operation used here distinguishes them. \<open>Finite\<close> accepts any real, so the statements
  below that hold for all points hold in particular for all points with binary32 coordinates.
\<close>

datatype f32 = Finite real | PInf | MInf | NaN

text \<open>
  The exponent of a positive real: \<open>2 powi (ilog2 y) \<le> y < 2 powi (ilog2 y + 1)\<close>.
\<close>

definition ilog2 :: "real \<Rightarrow> int" where
  "ilog2 y = (if 1 \<le> y then int (floorlog 2 (nat \<lfloor>y\<rfloor>)) - 1
              else - int (floorlog 2 (nat (\<lceil>1 / y\<rceil> - 1))))"

definition round_half_even :: "real \<Rightarrow> int" where
  "round_half_even q =
     (if q - of_int \<lfloor>q\<rfloor> < 1 / 2 then \<lfloor>q\<rfloor>
      else if 1 / 2 < q - of_int \<lfloor>q\<rfloor> then \<lfloor>q\<rfloor> + 1
      else if even \<lfloor>q\<rfloor> then \<lfloor>q\<rfloor> else \<lfloor>q\<rfloor> + 1)"

text \<open>
  The spacing of the binary32 numbers around a positive real: 24 significant bits, and the
  spacing \<open>2 powi (- 149)\<close> of the subnormal numbers below \<open>2 powi (- 126)\<close>.
\<close>

definition ulp_at :: "real \<Rightarrow> real" where
  "ulp_at y = 2 powi (max (ilog2 y) (- 126) - 23)"

text \<open>
  Rounding to nearest, ties to even; a result of \<open>2 powi 128\<close> or more is infinity.
\<close>

definition round_pos :: "real \<Rightarrow> f32" where
  "round_pos y =
     (if 2 powi 128 \<le> of_int (round_half_even (y / ulp_at y)) * ulp_at y then PInf
      else Finite (of_int (round_half_even (y / ulp_at y)) * ulp_at y))"

fun fneg :: "f32 \<Rightarrow> f32" where
  "fneg (Finite x) = Finite (- x)"
| "fneg PInf = MInf"
| "fneg MInf = PInf"
| "fneg NaN = NaN"

definition round32 :: "real \<Rightarrow> f32" where
  "round32 x = (if x = 0 then Finite 0 else if x < 0 then fneg (round_pos (- x)) else round_pos x)"

text \<open>
  The \<^verbatim>\<open>float\<close> operations the engine uses: \<^verbatim>\<open>+\<close>, \<^verbatim>\<open>-\<close>, \<^verbatim>\<open>*\<close>, \<^verbatim>\<open>std::abs\<close> and \<^verbatim>\<open><\<close>
  (\<^verbatim>\<open>a > b\<close> is \<^verbatim>\<open>b < a\<close>). A comparison with a NaN is false.
\<close>

fun fadd :: "f32 \<Rightarrow> f32 \<Rightarrow> f32" where
  "fadd (Finite x) (Finite y) = round32 (x + y)"
| "fadd NaN _ = NaN"
| "fadd _ NaN = NaN"
| "fadd PInf MInf = NaN"
| "fadd MInf PInf = NaN"
| "fadd PInf _ = PInf"
| "fadd _ PInf = PInf"
| "fadd MInf _ = MInf"
| "fadd _ MInf = MInf"

definition fsub :: "f32 \<Rightarrow> f32 \<Rightarrow> f32" where
  "fsub a b = fadd a (fneg b)"

fun fmul :: "f32 \<Rightarrow> f32 \<Rightarrow> f32" where
  "fmul (Finite x) (Finite y) = round32 (x * y)"
| "fmul NaN _ = NaN"
| "fmul _ NaN = NaN"
| "fmul (Finite x) PInf = (if x = 0 then NaN else if 0 < x then PInf else MInf)"
| "fmul (Finite x) MInf = (if x = 0 then NaN else if 0 < x then MInf else PInf)"
| "fmul PInf (Finite y) = (if y = 0 then NaN else if 0 < y then PInf else MInf)"
| "fmul MInf (Finite y) = (if y = 0 then NaN else if 0 < y then MInf else PInf)"
| "fmul PInf PInf = PInf"
| "fmul MInf MInf = PInf"
| "fmul PInf MInf = MInf"
| "fmul MInf PInf = MInf"

fun fabs :: "f32 \<Rightarrow> f32" where
  "fabs (Finite x) = Finite \<bar>x\<bar>"
| "fabs PInf = PInf"
| "fabs MInf = PInf"
| "fabs NaN = NaN"

fun fless :: "f32 \<Rightarrow> f32 \<Rightarrow> bool" where
  "fless (Finite x) (Finite y) = (x < y)"
| "fless NaN _ = False"
| "fless _ NaN = False"
| "fless _ MInf = False"
| "fless PInf _ = False"
| "fless MInf _ = True"
| "fless _ PInf = True"

text \<open>
  \<^verbatim>\<open>std::max\<close> on an initializer list starts from the first element and replaces the
  current largest element \<open>m\<close> by the next element \<open>x\<close> when \<^verbatim>\<open>m < x\<close>.
\<close>

definition std_max :: "f32 \<Rightarrow> f32 \<Rightarrow> f32" where
  "std_max m x = (if fless m x then x else m)"

subsection \<open>The operations of QVector3D in binary32\<close>

type_synonym Vector3f = "f32 \<times> f32 \<times> f32"

record MeshPoint32 =
  pos32 :: Vector3f
  required_neighbors32 :: int

fun vsub32 :: "Vector3f \<Rightarrow> Vector3f \<Rightarrow> Vector3f" where
  "vsub32 (x1, y1, z1) (x2, y2, z2) = (fsub x1 x2, fsub y1 y2, fsub z1 z2)"

fun dotProduct32 :: "Vector3f \<Rightarrow> Vector3f \<Rightarrow> f32" where
  "dotProduct32 (x1, y1, z1) (x2, y2, z2) = fadd (fadd (fmul x1 x2) (fmul y1 y2)) (fmul z1 z2)"

fun crossProduct32 :: "Vector3f \<Rightarrow> Vector3f \<Rightarrow> Vector3f" where
  "crossProduct32 (x1, y1, z1) (x2, y2, z2) =
     (fsub (fmul y1 z2) (fmul z1 y2), fsub (fmul z1 x2) (fmul x1 z2),
      fsub (fmul x1 y2) (fmul y1 x2))"

fun lengthSquared32 :: "Vector3f \<Rightarrow> f32" where
  "lengthSquared32 (x, y, z) = fadd (fadd (fmul x x) (fmul y y)) (fmul z z)"

subsection \<open>findValidFaces in binary32\<close>

text \<open>
  The literals \<^verbatim>\<open>1e-3f\<close> and \<^verbatim>\<open>1.01f\<close> are the binary32 numbers nearest to 1/1000 and 101/100.
\<close>

definition tolerance32 :: f32 where
  "tolerance32 = round32 (1 / 1000)"

definition factor32 :: f32 where
  "factor32 = round32 (101 / 100)"

definition point_at32 :: "MeshPoint32 list \<Rightarrow> int \<Rightarrow> MeshPoint32 option" where
  "point_at32 points k =
     (if 0 \<le> k \<and> k < int (length points) then Some (points ! nat k) else None)"

definition arePointsCoplanar32 :: "MeshPoint32 list \<Rightarrow> QuadFace \<Rightarrow> f32 \<Rightarrow> bool option" where
  "arePointsCoplanar32 points face tolerance =
     (case face of (f0, f1, f2, f3) \<Rightarrow>
        if f0 \<ge> int (length points) \<or> f1 \<ge> int (length points) \<or>
           f2 \<ge> int (length points) \<or> f3 \<ge> int (length points) then Some False
        else do {
          m0 \<leftarrow> point_at32 points f0;
          m1 \<leftarrow> point_at32 points f1;
          m2 \<leftarrow> point_at32 points f2;
          m3 \<leftarrow> point_at32 points f3;
          let v1 = vsub32 (pos32 m1) (pos32 m0);
          let v2 = vsub32 (pos32 m2) (pos32 m0);
          let v3 = vsub32 (pos32 m3) (pos32 m0);
          let volume = dotProduct32 v1 (crossProduct32 v2 v3);
          Some (fless (fabs volume) tolerance)
        })"

definition check_face32 :: "MeshPoint32 list \<Rightarrow> QuadFace \<Rightarrow> face_state \<Rightarrow> face_state option" where
  "check_face32 points potentialFace st =
     (case potentialFace of (p0_idx, p1_idx, p2_idx, p3_idx) \<Rightarrow>
     (case st of (validFaces, uniqueFaces) \<Rightarrow> do {
        coplanar \<leftarrow> arePointsCoplanar32 points potentialFace tolerance32;
        if coplanar then do {
          m0 \<leftarrow> point_at32 points p0_idx;
          m1 \<leftarrow> point_at32 points p1_idx;
          m2 \<leftarrow> point_at32 points p2_idx;
          m3 \<leftarrow> point_at32 points p3_idx;
          let edge01_sq = lengthSquared32 (vsub32 (pos32 m0) (pos32 m1));
          let edge12_sq = lengthSquared32 (vsub32 (pos32 m1) (pos32 m2));
          let edge23_sq = lengthSquared32 (vsub32 (pos32 m2) (pos32 m3));
          let edge30_sq = lengthSquared32 (vsub32 (pos32 m3) (pos32 m0));
          let diag02_sq = lengthSquared32 (vsub32 (pos32 m0) (pos32 m2));
          let diag13_sq = lengthSquared32 (vsub32 (pos32 m1) (pos32 m3));
          let max_edge_sq = std_max (std_max (std_max edge01_sq edge12_sq) edge23_sq) edge30_sq;
          if fless (fmul max_edge_sq factor32) diag02_sq \<and> fless (fmul max_edge_sq factor32) diag13_sq
          then (if sortedFace potentialFace \<in> uniqueFaces then Some st
                else Some (validFaces @ [potentialFace],
                           insert (sortedFace potentialFace) uniqueFaces))
          else Some st
        } else Some st
      }))"

definition faces_of_pair32 ::
  "MeshPoint32 list \<Rightarrow> AdjacencyGraph \<Rightarrow> int \<Rightarrow> int \<times> int \<Rightarrow> face_state \<Rightarrow> face_state option" where
  "faces_of_pair32 points adjGraph p0_idx pr st =
     (case pr of (p1_idx, p3_idx) \<Rightarrow>
        (case adjGraph p1_idx of None \<Rightarrow> Some st
         | Some adj1 \<Rightarrow>
           (case adjGraph p3_idx of None \<Rightarrow> Some st
            | Some adj3 \<Rightarrow>
                foldM (\<lambda>p2_idx st'.
                         if p2_idx \<noteq> p0_idx \<and> p2_idx \<in> set adj3
                         then check_face32 points (p0_idx, p1_idx, p2_idx, p3_idx) st'
                         else Some st')
                      adj1 st)))"

definition faces_of_point32 ::
  "MeshPoint32 list \<Rightarrow> AdjacencyGraph \<Rightarrow> int \<Rightarrow> face_state \<Rightarrow> face_state option" where
  "faces_of_point32 points adjGraph p0_idx st =
     (case adjGraph p0_idx of None \<Rightarrow> Some st
      | Some neighbors \<Rightarrow> foldM (faces_of_pair32 points adjGraph p0_idx) (pairs_of neighbors) st)"

definition findValidFaces32 :: "MeshPoint32 list \<Rightarrow> AdjacencyGraph \<Rightarrow> QuadFace list option" where
  "findValidFaces32 points adjGraph =
     map_option fst
       (foldM (faces_of_point32 points adjGraph) (map int [0..<length points]) ([], {}))"

subsection \<open>Notions used to state the properties of the binary32 search\<close>

definition position32 :: "MeshPoint32 list \<Rightarrow> int \<Rightarrow> Vector3f" where
  "position32 points k = pos32 (points ! nat k)"

definition edge_sq32 :: "MeshPoint32 list \<Rightarrow> int \<Rightarrow> int \<Rightarrow> f32" where
  "edge_sq32 points a b = lengthSquared32 (vsub32 (position32 points a) (position32 points b))"

text \<open>
  The scalar triple product and the longest squared edge of a face, as the code computes them.
\<close>

definition volume32 :: "MeshPoint32 list \<Rightarrow> QuadFace \<Rightarrow> f32" where
  "volume32 points face =
     (case face of (p0, p1, p2, p3) \<Rightarrow>
        dotProduct32 (vsub32 (position32 points p1) (position32 points p0))
          (crossProduct32 (vsub32 (position32 points p2) (position32 points p0))
                          (vsub32 (position32 points p3) (position32 points p0))))"

definition max_edge_sq32 :: "MeshPoint32 list \<Rightarrow> QuadFace \<Rightarrow> f32" where
  "max_edge_sq32 points face =
     (case face of (p0, p1, p2, p3) \<Rightarrow>
        std_max (std_max (std_max (edge_sq32 points p0 p1) (edge_sq32 points p1 p2))
                   (edge_sq32 points p2 p3)) (edge_sq32 points p3 p0))"

definition passes_checks32 :: "MeshPoint32 list \<Rightarrow> QuadFace \<Rightarrow> bool" where
  "passes_checks32 points face =
     (case face of (p0, p1, p2, p3) \<Rightarrow>
        list_all (\<lambda>k. 0 \<le> k \<and> k < int (length points)) [p0, p1, p2, p3] \<and>
        fless (fabs (volume32 points face)) tolerance32 \<and>
        fless (fmul (max_edge_sq32 points face) factor32) (edge_sq32 points p0 p2) \<and>
        fless (fmul (max_edge_sq32 points face) factor32) (edge_sq32 points p1 p3))"

text \<open>
  The real number a finite binary32 value stands for (0 for the infinities and NaN, which
  stand for none), and a point with these real coordinates.
\<close>

fun exact :: "f32 \<Rightarrow> real" where
  "exact (Finite x) = x"
| "exact PInf = 0"
| "exact MInf = 0"
| "exact NaN = 0"

definition exact_point :: "MeshPoint32 \<Rightarrow> MeshPoint" where
  "exact_point m = (case pos32 m of (x, y, z) \<Rightarrow>
     \<lparr>pos = (exact x, exact y, exact z), required_neighbors = required_neighbors32 m\<rparr>)"

definition mesh_point32 :: "real \<Rightarrow> real \<Rightarrow> real \<Rightarrow> int \<Rightarrow> MeshPoint32" where
  "mesh_point32 x y z n = \<lparr>pos32 = (Finite x, Finite y, Finite z), required_neighbors32 = n\<rparr>"

text \<open>
  A finite value is a binary32 number when rounding leaves it as it is.
\<close>

definition is_binary32 :: "f32 \<Rightarrow> bool" where
  "is_binary32 x = (case x of Finite v \<Rightarrow> round32 v = Finite v | _ \<Rightarrow> True)"

definition binary32_point :: "MeshPoint32 \<Rightarrow> bool" where
  "binary32_point m = (case pos32 m of (x, y, z) \<Rightarrow> is_binary32 x \<and> is_binary32 y \<and> is_binary32 z)"

text \<open>
  The values that rounding a positive real can give: the positive multiples of the spacing
  at their own magnitude.
\<close>

definition on_grid :: "real \<Rightarrow> bool" where
  "on_grid v \<longleftrightarrow> 0 < v \<and> of_int \<lfloor>v / ulp_at v\<rfloor> = v / ulp_at v"

text \<open>
  The rounded value of a positive \<open>y\<close>, before the overflow test.
\<close>

definition rounded :: "real \<Rightarrow> real" where
  "rounded y = of_int (round_half_even (y / ulp_at y)) * ulp_at y"

text \<open>
  The values of a squared length: not negative, not minus infinity; a positive finite one is
  on the grid.
\<close>

definition nonneg32 :: "f32 \<Rightarrow> bool" where
  "nonneg32 x = (case x of Finite v \<Rightarrow> 0 \<le> v | MInf \<Rightarrow> False | _ \<Rightarrow> True)"

definition gridded :: "f32 \<Rightarrow> bool" where
  "gridded x = (case x of Finite v \<Rightarrow> v = 0 \<or> on_grid v | MInf \<Rightarrow> False | _ \<Rightarrow> True)"
section \<open>Small inputs used to instantiate the theorems\<close>

definition two_points :: "MeshPoint list" where
  "two_points = [mesh_point 0 0 0 5, mesh_point 1 0 0 0]"

text \<open>Two opposite quads whose points are joined only from the lower to the upper one.\<close>

definition bottom_face :: QuadFace where
  "bottom_face = (0, 1, 2, 3)"

definition top_face :: QuadFace where
  "top_face = (4, 5, 6, 7)"

text \<open>The graph of a cube, with its bottom, top and two opposite side faces.\<close>

definition cube_graph :: AdjacencyGraph where
  "cube_graph = [0 \<mapsto> [1, 3, 4], 1 \<mapsto> [0, 2, 5], 2 \<mapsto> [1, 3, 6], 3 \<mapsto> [0, 2, 7],
                 4 \<mapsto> [0, 5, 7], 5 \<mapsto> [1, 4, 6], 6 \<mapsto> [2, 5, 7], 7 \<mapsto> [3, 4, 6]]"

definition cube_faces :: "QuadFace list" where
  "cube_faces = [bottom_face, top_face, (0, 1, 5, 4), (3, 2, 6, 7)]"

definition upward_graph :: AdjacencyGraph where
  "upward_graph = [0 \<mapsto> [4], 1 \<mapsto> [5], 2 \<mapsto> [6], 3 \<mapsto> [7]]"


definition turned_graph :: AdjacencyGraph where
  "turned_graph = [0 \<mapsto> [3, 1], 1 \<mapsto> [0, 2], 2 \<mapsto> [1, 3], 3 \<mapsto> [2, 0]]"

definition negative_graph :: AdjacencyGraph where
  "negative_graph = [0 \<mapsto> [- 1, - 2], - 1 \<mapsto> [- 3], - 2 \<mapsto> [- 3]]"

text \<open>
  Two quadrilaterals with integer coordinates whose corners are nearly, but not exactly, in a
  plane, and the graph of the 4-cycle (the same graph as \<open>turned_graph\<close>, in another
  iteration order).
\<close>

definition near_planar_points :: "MeshPoint32 list" where
  "near_planar_points = [mesh_point32 0 0 0 2, mesh_point32 (- 1677) (- 716) 2499 2,
                         mesh_point32 430 (- 3590) 1246 2, mesh_point32 2107 (- 2876) (- 1252) 2]"

definition skew_points :: "MeshPoint32 list" where
  "skew_points = [mesh_point32 0 0 0 2, mesh_point32 (- 2941) (- 2916) 1179 2,
                  mesh_point32 (- 7094) (- 1823) 1217 2, mesh_point32 (- 4164) 1077 44 2]"

definition cycle_graph :: AdjacencyGraph where
  "cycle_graph = [0 \<mapsto> [1, 3], 1 \<mapsto> [0, 2], 2 \<mapsto> [1, 3], 3 \<mapsto> [2, 0]]"

section \<open>Properties of buildAdjacencyGraph\<close>

lemma insert_nearest_take:
  "0 \<le> k \<Longrightarrow> insert_nearest k kn ds s
     = fold uset_insert (map snd (drop (nat k) (take (nat kn) ds))) s"
proof (induction k kn ds s rule: insert_nearest.induct)
  case (1 k kn ds s)
  show ?case
  proof (cases "k < kn \<and> k < int (length ds)")
    case True
    then have lt: "nat k < length (take (nat kn) ds)" using 1(2) by (simp; linarith)
    have "drop (nat k) (take (nat kn) ds) = (take (nat kn) ds ! nat k) # drop (Suc (nat k)) (take (nat kn) ds)"
      by (rule Cons_nth_drop_Suc[OF lt, symmetric])
    moreover have "take (nat kn) ds ! nat k = ds ! nat k" using True 1(2) by simp
    moreover have "Suc (nat k) = nat (k + 1)" using 1(2) by simp
    ultimately show ?thesis using True 1
      by (subst insert_nearest.simps) simp
  next
    case False
    then have "drop (nat k) (take (nat kn) ds) = []" using 1(2) by auto
    then show ?thesis using False by (subst insert_nearest.simps) auto
  qed
qed

lemma fold_uset_insert_distinct:
  "distinct (s @ xs) \<Longrightarrow> fold uset_insert xs s = s @ xs"
  by (induction xs arbitrary: s) (auto simp: uset_insert_def)

lemma snd_distances_from:
  "map snd (distances_from points i) = map int (filter (\<lambda>j. i \<noteq> j) [0..<length points])"
  by (simp add: distances_from_def comp_def)

lemma mset_snd_sorted_distances:
  "mset (map snd (sort (distances_from points i)))
     = mset (map int (filter (\<lambda>j. i \<noteq> j) [0..<length points]))"
proof -
  have "mset (map snd (sort (distances_from points i))) = image_mset snd (mset (sort (distances_from points i)))"
    by simp
  also have "\<dots> = mset (map snd (distances_from points i))" by simp
  finally show ?thesis by (simp only: snd_distances_from)
qed

lemma distinct_int_others: "distinct (map int (filter (\<lambda>j. i \<noteq> j) [0..<n]))"
  by (simp add: distinct_map inj_on_def)

lemma distinct_snd_sorted_distances:
  "distinct (map snd (sort (distances_from points i)))"
  using mset_snd_sorted_distances[of points i] distinct_int_others[of i "length points"]
  by (metis mset_eq_imp_distinct_iff)

lemma set_snd_sorted_distances:
  "set (map snd (sort (distances_from points i))) = int ` ({0..<length points} - {i})"
proof -
  have "set (map snd (sort (distances_from points i))) = set (map int (filter (\<lambda>j. i \<noteq> j) [0..<length points]))"
    using mset_snd_sorted_distances[of points i] by (metis set_mset_mset)
  then show ?thesis by auto
qed

lemma length_filter_others:
  "length (filter (\<lambda>j. i \<noteq> j) [0..<n]) = (if i < n then n - 1 else n)"
  by (induction n) auto

lemma length_distances_from:
  "i < length points \<Longrightarrow> length (distances_from points i) = length points - 1"
  by (simp add: distances_from_def length_filter_others)

lemma int_image_upt: "k \<in> int ` {0..<n} \<longleftrightarrow> 0 \<le> k \<and> k < int n"
  by (auto simp: image_iff intro: bexI[of _ "nat k"])

lemma neighbors_of_take:
  "neighbors_of points i =
     map snd (take (nat (required_neighbors (points ! i))) (sort (distances_from points i)))"
proof -
  have "distinct (map snd (take (nat (required_neighbors (points ! i))) (sort (distances_from points i))))"
    using distinct_snd_sorted_distances[of points i] by (simp add: take_map[symmetric] distinct_take)
  then show ?thesis
    by (simp add: neighbors_of_def insert_nearest_take fold_uset_insert_distinct)
qed

lemma fold_update_lookup:
  "fold (\<lambda>i g. g(int i \<mapsto> f i)) xs g0 k
     = (if k \<in> int ` set xs then Some (f (nat k)) else g0 k)"
  by (induction xs arbitrary: g0) auto

lemma buildAdjacencyGraph_lookup:
  "buildAdjacencyGraph points k
     = (if 0 \<le> k \<and> k < int (length points) then Some (neighbors_of points (nat k)) else None)"
proof (cases "points = []")
  case True
  then show ?thesis by (simp add: buildAdjacencyGraph_def)
next
  case False
  show ?thesis using False
    by (simp add: buildAdjacencyGraph_def fold_update_lookup int_image_upt)
qed

lemma distinct_neighbors_of: "distinct (neighbors_of points i)"
  unfolding neighbors_of_take take_map[symmetric]
  by (rule distinct_take) (rule distinct_snd_sorted_distances)

lemma length_neighbors_of:
  "i < length points \<Longrightarrow>
   length (neighbors_of points i) = min (nat (required_neighbors (points ! i))) (length points - 1)"
  by (simp add: neighbors_of_take length_distances_from min.commute)

lemma set_neighbors_of:
  "set (neighbors_of points i) \<subseteq> int ` ({0..<length points} - {i})"
  unfolding neighbors_of_take take_map[symmetric] set_snd_sorted_distances[symmetric]
  by (rule set_take_subset)

text \<open>
  C4 (degree bound): for a point sequence of length \<open>n\<close> and an index \<open>i\<close> whose required
  neighbour count is not negative, the neighbour set that \<open>buildAdjacencyGraph\<close> assigns to \<open>i\<close>
  has exactly \<open>min (required_neighbors i) (n - 1)\<close> elements; a count above \<open>n - 1\<close> is clamped
  and the function returns normally.
\<close>

theorem degree_bound:
  assumes "i < length points" and "0 \<le> required_neighbors (points ! i)"
  shows "\<exists>ns. buildAdjacencyGraph points (int i) = Some ns \<and> distinct ns \<and>
           int (card (set ns)) = min (required_neighbors (points ! i)) (int (length points) - 1)"
proof -
  let ?ns = "neighbors_of points i"
  have "buildAdjacencyGraph points (int i) = Some ?ns"
    using assms(1) by (simp add: buildAdjacencyGraph_lookup)
  moreover have d: "distinct ?ns" by (rule distinct_neighbors_of)
  moreover have "int (card (set ?ns)) = min (required_neighbors (points ! i)) (int (length points) - 1)"
    using assms by (simp add: distinct_card[OF d] length_neighbors_of)
  ultimately show ?thesis by blast
qed

theorem degree_bound_witness:
  "\<exists>ns. buildAdjacencyGraph two_points 0 = Some ns \<and> distinct ns \<and> int (card (set ns)) = 1"
  using degree_bound[of 0 two_points] by (simp add: two_points_def mesh_point_def)

text \<open>
  C9: for a non-empty point sequence of length \<open>n\<close> the returned graph has an entry for exactly
  the indices \<open>0, \<dots>, n - 1\<close>, and every index in a neighbour set lies in \<open>[0, n)\<close> and differs
  from the key of that set.
\<close>

theorem graph_entries_and_neighbors:
  assumes "points \<noteq> []"
  shows "dom (buildAdjacencyGraph points) = int ` {0..<length points} \<and>
         (\<forall>k ns. buildAdjacencyGraph points k = Some ns \<longrightarrow>
            (\<forall>x \<in> set ns. 0 \<le> x \<and> x < int (length points) \<and> x \<noteq> k))"
proof -
  have "dom (buildAdjacencyGraph points) = int ` {0..<length points}"
    by (rule set_eqI) (simp add: dom_def buildAdjacencyGraph_lookup int_image_upt)
  moreover have "0 \<le> x \<and> x < int (length points) \<and> x \<noteq> k"
    if g: "buildAdjacencyGraph points k = Some ns" and x: "x \<in> set ns" for k ns x
  proof -
    from g have k: "0 \<le> k" "k < int (length points)" and ns: "ns = neighbors_of points (nat k)"
      by (auto simp: buildAdjacencyGraph_lookup split: if_splits)
    from x ns set_neighbors_of[of points "nat k"]
    have "x \<in> int ` ({0..<length points} - {nat k})" by blast
    then show ?thesis using k by auto
  qed
  ultimately show ?thesis by blast
qed

theorem graph_entries_and_neighbors_witness:
  "dom (buildAdjacencyGraph two_points) = {0, 1} \<and>
   buildAdjacencyGraph two_points 0 = Some [1] \<and> buildAdjacencyGraph two_points 1 = Some []"
proof -
  have ne: "two_points \<noteq> []" by (simp add: two_points_def)
  have "int ` {0..<length two_points} = {0, 1}"
    by (auto simp: two_points_def)
  moreover have "buildAdjacencyGraph two_points 0 = Some [1]"
    by (simp add: buildAdjacencyGraph_lookup neighbors_of_take distances_from_def distanceToPoint_def
        two_points_def mesh_point_def upt_rec)
  moreover have "buildAdjacencyGraph two_points 1 = Some []"
    by (simp add: buildAdjacencyGraph_lookup neighbors_of_take distances_from_def distanceToPoint_def
        two_points_def mesh_point_def upt_rec)
  ultimately show ?thesis using graph_entries_and_neighbors[OF ne] by simp
qed

text \<open>
  C10: a point whose required neighbour count is zero or negative gets the empty neighbour set,
  and \<open>buildAdjacencyGraph\<close> returns normally.
\<close>

theorem nonpositive_count_gives_no_neighbors:
  assumes "i < length points" and "required_neighbors (points ! i) \<le> 0"
  shows "buildAdjacencyGraph points (int i) = Some []"
  using assms by (simp add: buildAdjacencyGraph_lookup neighbors_of_take)

theorem nonpositive_count_gives_no_neighbors_witness:
  "buildAdjacencyGraph [mesh_point 0 0 0 (- 2), mesh_point 1 0 0 0] 0 = Some [] \<and>
   buildAdjacencyGraph [mesh_point 0 0 0 (- 2), mesh_point 1 0 0 0] 1 = Some []"
  using nonpositive_count_gives_no_neighbors[of 0 "[mesh_point 0 0 0 (- 2), mesh_point 1 0 0 0]"]
    nonpositive_count_gives_no_neighbors[of 1 "[mesh_point 0 0 0 (- 2), mesh_point 1 0 0 0]"]
  by (simp add: mesh_point_def)

section \<open>Lemmas on pair enumeration and on deduplication\<close>

lemma set_pairs_of:
  "set (pairs_of xs) = {(xs ! i, xs ! j) | i j. i < j \<and> j < length xs}"
proof (induction xs)
  case Nil
  then show ?case by simp
next
  case (Cons x xs)
  have "{((x # xs) ! i, (x # xs) ! j) | i j. i < j \<and> j < length (x # xs)}
        = Pair x ` set xs \<union> {(xs ! i, xs ! j) | i j. i < j \<and> j < length xs}" (is "?L = ?R")
  proof (rule set_eqI)
    fix p
    show "p \<in> ?L \<longleftrightarrow> p \<in> ?R"
    proof
      assume "p \<in> ?L"
      then obtain i j where ij: "i < j" "j < length (x # xs)" "p = ((x # xs) ! i, (x # xs) ! j)" by blast
      then obtain j' where j': "j = Suc j'" by (cases j) auto
      show "p \<in> ?R"
      proof (cases i)
        case 0
        then show ?thesis using ij j' by auto
      next
        case (Suc i')
        then have "p = (xs ! i', xs ! j')" "i' < j'" "j' < length xs" using ij j' by auto
        then show ?thesis by blast
      qed
    next
      assume "p \<in> ?R"
      then consider y where "y \<in> set xs" "p = (x, y)"
        | i j where "i < j" "j < length xs" "p = (xs ! i, xs ! j)" by blast
      then show "p \<in> ?L"
      proof cases
        case 1
        then obtain k where "k < length xs" "xs ! k = y" by (auto simp: in_set_conv_nth)
        then have "0 < Suc k \<and> Suc k < length (x # xs) \<and> p = ((x # xs) ! 0, (x # xs) ! Suc k)"
          using 1 by simp
        then show ?thesis by blast
      next
        case 2
        then have "Suc i < Suc j \<and> Suc j < length (x # xs) \<and> p = ((x # xs) ! Suc i, (x # xs) ! Suc j)"
          by simp
        then show ?thesis by blast
      qed
    qed
  qed
  then show ?case using Cons by simp
qed

lemma in_pairs_of: "(a, b) \<in> set (pairs_of xs) \<Longrightarrow> a \<in> set xs \<and> b \<in> set xs"
  by (induction xs) auto

lemma set_first_occurrences: "set (first_occurrences key xs) \<subseteq> set xs"
  by (induction key xs rule: first_occurrences.induct) auto

lemma distinct_first_occurrences: "distinct (map key (first_occurrences key xs))"
proof (induction key xs rule: first_occurrences.induct)
  case (1 key)
  then show ?case by simp
next
  case (2 key x xs)
  have "key x \<notin> key ` set (first_occurrences key (filter (\<lambda>y. key y \<noteq> key x) xs))"
    using set_first_occurrences[of key "filter (\<lambda>y. key y \<noteq> key x) xs"] by auto
  with 2 show ?case by simp
qed

lemma fold_keep_new:
  "fold (keep_new key ok) cs (fs, U) =
     (fs @ first_occurrences key (filter (\<lambda>c. ok c \<and> key c \<notin> U) cs),
      U \<union> key ` {c \<in> set cs. ok c})"
proof (induction cs arbitrary: fs U)
  case Nil
  then show ?case by simp
next
  case (Cons c cs)
  show ?case
  proof (cases "ok c \<and> key c \<notin> U")
    case True
    have step: "keep_new key ok c (fs, U) = (fs @ [c], insert (key c) U)"
      using True by (simp add: keep_new_def)
    have f: "filter (\<lambda>y. key y \<noteq> key c) (filter (\<lambda>c. ok c \<and> key c \<notin> U) cs)
          = filter (\<lambda>c'. ok c' \<and> key c' \<notin> insert (key c) U) cs"
      by (induction cs) auto
    have u: "insert (key c) U \<union> key ` {c \<in> set cs. ok c} = U \<union> key ` {c' \<in> set (c # cs). ok c'}"
      using True by auto
    have "fold (keep_new key ok) (c # cs) (fs, U)
            = fold (keep_new key ok) cs (fs @ [c], insert (key c) U)"
      by (simp add: step)
    also have "\<dots> = ((fs @ [c]) @ first_occurrences key
                        (filter (\<lambda>c'. ok c' \<and> key c' \<notin> insert (key c) U) cs),
                      insert (key c) U \<union> key ` {c \<in> set cs. ok c})"
      by (rule Cons.IH)
    also have "\<dots> = (fs @ first_occurrences key (filter (\<lambda>c. ok c \<and> key c \<notin> U) (c # cs)),
                      U \<union> key ` {c' \<in> set (c # cs). ok c'})"
      unfolding u using True by (simp add: f del: filter_filter)
    finally show ?thesis .
  next
    case False
    have step: "keep_new key ok c (fs, U) = (fs, U)"
      using False by (auto simp: keep_new_def)
    have u: "U \<union> key ` {c \<in> set cs. ok c} = U \<union> key ` {c' \<in> set (c # cs). ok c'}"
      using False by auto
    have "fold (keep_new key ok) (c # cs) (fs, U) = fold (keep_new key ok) cs (fs, U)"
      by (simp add: step)
    also have "\<dots> = (fs @ first_occurrences key (filter (\<lambda>c. ok c \<and> key c \<notin> U) cs),
                      U \<union> key ` {c \<in> set cs. ok c})"
      by (rule Cons.IH)
    also have "\<dots> = (fs @ first_occurrences key (filter (\<lambda>c. ok c \<and> key c \<notin> U) (c # cs)),
                      U \<union> key ` {c' \<in> set (c # cs). ok c'})"
      unfolding u using False by auto
    finally show ?thesis .
  qed
qed

lemma distinct_map_transfer:
  assumes "distinct (map f xs)" and "\<And>x y. x \<in> set xs \<Longrightarrow> y \<in> set xs \<Longrightarrow> g x = g y \<Longrightarrow> f x = f y"
  shows "distinct (map g xs)"
  using assms
proof (induction xs)
  case Nil
  then show ?case by simp
next
  case (Cons a xs)
  have "g a \<notin> g ` set xs"
  proof
    assume "g a \<in> g ` set xs"
    then obtain y where y: "y \<in> set xs" "g a = g y" by blast
    then have "f a = f y" using Cons.prems(2)[of a y] by simp
    then show False using Cons.prems(1) y(1) by auto
  qed
  moreover have "distinct (map g xs)"
    using Cons by simp
  ultimately show ?case by simp
qed

lemma pairs_of_distinct:
  "distinct xs \<Longrightarrow>
   ((a, b) \<in> set (pairs_of xs) \<or> (b, a) \<in> set (pairs_of xs)) \<longleftrightarrow> (a \<in> set xs \<and> b \<in> set xs \<and> a \<noteq> b)"
proof (induction xs)
  case Nil
  then show ?case by simp
next
  case (Cons x xs)
  have "(a, b) \<in> set (pairs_of xs) \<Longrightarrow> a \<noteq> x \<and> b \<noteq> x" for a b
    using in_pairs_of[of a b xs] Cons.prems by auto
  then show ?case using Cons by auto
qed

lemma image_first_occurrences: "key ` set (first_occurrences key xs) = key ` set xs"
proof (induction key xs rule: first_occurrences.induct)
  case (1 key)
  then show ?case by simp
next
  case (2 key x xs)
  have "key ` set (x # xs) = insert (key x) (key ` set (filter (\<lambda>y. key y \<noteq> key x) xs))"
    by auto
  with 2 show ?case by simp
qed

lemma length_first_occurrences: "length (first_occurrences key xs) = card (key ` set xs)"
proof -
  have "length (first_occurrences key xs) = length (map key (first_occurrences key xs))"
    by simp
  also have "\<dots> = card (set (map key (first_occurrences key xs)))"
    by (rule distinct_card[symmetric]) (rule distinct_first_occurrences)
  also have "\<dots> = card (key ` set xs)"
    by (simp add: image_first_occurrences)
  finally show ?thesis .
qed

lemma pairs_of_map: "pairs_of (map f xs) = map (map_prod f f) (pairs_of xs)"
  by (induction xs) simp_all

section \<open>Properties of buildHexahedra\<close>

lemma set_connecting_edges:
  "set (connecting_edges adjGraph face1 face2)
     = {(a, b). a \<in> set (face_list face1) \<and> b \<in> set (face_list face2) \<and> graph_edge adjGraph a b}"
  by (auto simp: connecting_edges_def graph_edge_def split: option.splits dest: sym)

lemma fst_connecting_edges:
  "set (map fst (connecting_edges adjGraph face1 face2)) \<subseteq> set (face_list face1)"
  by (simp only: set_map set_connecting_edges) auto

lemma snd_connecting_edges:
  "set (map snd (connecting_edges adjGraph face1 face2)) \<subseteq> set (face_list face2)"
  by (simp only: set_map set_connecting_edges) auto

lemma length_face_list: "length (face_list f) = 4"
  by (cases f) simp

lemma four_of_face:
  assumes "set xs \<subseteq> set (face_list f)" and "card (set xs) = 4"
  shows "set xs = set (face_list f) \<and> distinct (face_list f)"
proof -
  have "card (set (face_list f)) \<le> 4" using card_length[of "face_list f"] by (simp add: length_face_list)
  moreover have "card (set xs) \<le> card (set (face_list f))" using assms(1) by (simp add: card_mono)
  ultimately have c: "card (set (face_list f)) = 4" using assms(2) by simp
  then have "set xs = set (face_list f)" using assms by (simp add: card_subset_eq)
  moreover have "distinct (face_list f)" using c by (simp add: card_distinct length_face_list)
  ultimately show ?thesis by simp
qed

lemma list_of_length_four: "length es = 4 \<Longrightarrow> es = [es ! 0, es ! 1, es ! 2, es ! 3]"
  by (simp add: list_eq_iff_nth_eq nth_Cons' numeral_eq_Suc less_Suc_eq)

lemma hex_of_edges_parts:
  assumes "length es = 4"
  shows "hex_first (hex_of_edges es) = map fst es" and "hex_last (hex_of_edges es) = map snd es"
    and "hex_list (hex_of_edges es) = map fst es @ map snd es"
proof -
  obtain a b c d where es: "es = [a, b, c, d]"
    using list_of_length_four[OF assms] by blast
  show "hex_first (hex_of_edges es) = map fst es" and "hex_last (hex_of_edges es) = map snd es"
    and "hex_list (hex_of_edges es) = map fst es @ map snd es"
    by (simp_all add: es hex_of_edges_def)
qed

lemma hex_of_pair_cases:
  assumes "h \<in> set (hex_of_pair adjGraph (face1, face2))"
  shows "faces_disjoint face1 face2" 
    and "length (connecting_edges adjGraph face1 face2) = 4"
    and "h = hex_of_edges (connecting_edges adjGraph face1 face2)"
    and "card (set (map fst (connecting_edges adjGraph face1 face2))) = 4"
    and "card (set (map snd (connecting_edges adjGraph face1 face2))) = 4"
  using assms by (auto simp: hex_of_pair_def Let_def split: if_splits)

lemma faces_disjoint_iff:
  "faces_disjoint face1 face2 \<longleftrightarrow> set (face_list face1) \<inter> set (face_list face2) = {}"
  by (auto simp: faces_disjoint_def list_ex_iff)

lemma candidate_from_pair:
  assumes "h \<in> set (candidateHexahedra validFaces adjGraph)"
  shows "\<exists>i j. i < j \<and> j < length validFaces \<and>
            h \<in> set (hex_of_pair adjGraph (validFaces ! i, validFaces ! j))"
proof -
  from assms obtain p where p: "p \<in> set (pairs_of validFaces)" and h: "h \<in> set (hex_of_pair adjGraph p)"
    by (auto simp: candidateHexahedra_def)
  from p obtain i j where "i < j" "j < length validFaces" "p = (validFaces ! i, validFaces ! j)"
    unfolding set_pairs_of by blast
  with h show ?thesis by blast
qed

lemma hex_of_pair_valid:
  assumes "h \<in> set (hex_of_pair adjGraph (face1, face2))"
  shows "set (face_list face1) \<inter> set (face_list face2) = {}"
    and "connecting_edges adjGraph face1 face2 = zip (hex_first h) (hex_last h)"
    and "set (hex_first h) = set (face_list face1)"
    and "set (hex_last h) = set (face_list face2)"
    and "distinct (face_list face1)" and "distinct (face_list face2)"
    and "distinct (hex_list h)"
proof -
  let ?es = "connecting_edges adjGraph face1 face2"
  note c = hex_of_pair_cases[OF assms]
  have f: "hex_first h = map fst ?es" and l: "hex_last h = map snd ?es"
    and hl: "hex_list h = map fst ?es @ map snd ?es"
    using hex_of_edges_parts[OF c(2)] c(3) by simp_all
  show dj: "set (face_list face1) \<inter> set (face_list face2) = {}"
    using c(1) by (simp add: faces_disjoint_iff)
  show "?es = zip (hex_first h) (hex_last h)"
    by (simp add: f l zip_map_fst_snd)
  have 1: "set (map fst ?es) = set (face_list face1) \<and> distinct (face_list face1)"
    by (rule four_of_face[OF fst_connecting_edges c(4)])
  have 2: "set (map snd ?es) = set (face_list face2) \<and> distinct (face_list face2)"
    by (rule four_of_face[OF snd_connecting_edges c(5)])
  show s1: "set (hex_first h) = set (face_list face1)" using 1 f by simp
  show s2: "set (hex_last h) = set (face_list face2)" using 2 l by simp
  show "distinct (face_list face1)" "distinct (face_list face2)" using 1 2 by simp_all
  have d: "distinct (map fst ?es)" "distinct (map snd ?es)"
    using c(2,4,5) by (simp_all add: card_distinct)
  have e1: "set (map fst ?es) = set (face_list face1)" using 1 by (rule conjunct1)
  have e2: "set (map snd ?es) = set (face_list face2)" using 2 by (rule conjunct1)
  show "distinct (hex_list h)"
    unfolding hl distinct_append e1 e2 using d dj by (intro conjI)
qed


lemma dedup_hex_keep_new:
  "dedup_hex = keep_new sortedHex (\<lambda>h. card (set (sortedHex h)) = 8)"
  by (intro ext) (auto simp: dedup_hex_def keep_new_def)

lemma fold_dedup_hex:
  "fold dedup_hex cs (fs, U) =
     (fs @ first_occurrences sortedHex
             (filter (\<lambda>c. card (set (sortedHex c)) = 8 \<and> sortedHex c \<notin> U) cs),
      U \<union> sortedHex ` {c \<in> set cs. card (set (sortedHex c)) = 8})"
  unfolding dedup_hex_keep_new by (rule fold_keep_new)

lemma candidate_distinct:
  assumes "h \<in> set (candidateHexahedra validFaces adjGraph)"
  shows "distinct (hex_list h)"
  using candidate_from_pair[OF assms] hex_of_pair_valid(7) by blast

lemma length_hex_list: "length (hex_list h) = 8"
  by (cases h rule: hex_list.cases) simp

lemma hex_list_parts: "hex_list h = hex_first h @ hex_last h"
  by (cases h rule: hex_list.cases) simp

lemma length_hex_parts: "length (hex_first h) = 4" "length (hex_last h) = 4"
  by (cases h rule: hex_list.cases, simp)+

lemma card_sortedHex: "card (set (sortedHex h)) = 8 \<longleftrightarrow> distinct (hex_list h)"
  using card_distinct[of "hex_list h"] distinct_card[of "hex_list h"]
  by (auto simp: sortedHex_def length_hex_list)

lemma buildHexahedra_first_occurrences:
  "buildHexahedra validFaces adjGraph
     = first_occurrences sortedHex (candidateHexahedra validFaces adjGraph)"
proof -
  have "filter (\<lambda>c. card (set (sortedHex c)) = 8 \<and> sortedHex c \<notin> {})
          (candidateHexahedra validFaces adjGraph) = candidateHexahedra validFaces adjGraph"
    by (rule filter_True) (simp add: card_sortedHex candidate_distinct)
  then show ?thesis by (simp only: buildHexahedra_def fold_dedup_hex fst_conv append_Nil)
qed

lemma buildHexahedra_subset:
  "set (buildHexahedra validFaces adjGraph) \<subseteq> set (candidateHexahedra validFaces adjGraph)"
  unfolding buildHexahedra_first_occurrences by (rule set_first_occurrences)

lemma sortedHex_eq_iff:
  assumes "distinct (hex_list h1)" and "distinct (hex_list h2)"
  shows "sortedHex h1 = sortedHex h2 \<longleftrightarrow> set (hex_list h1) = set (hex_list h2)"
proof
  assume "sortedHex h1 = sortedHex h2"
  then have "set (sortedHex h1) = set (sortedHex h2)" by simp
  then show "set (hex_list h1) = set (hex_list h2)" by (simp add: sortedHex_def)
next
  assume "set (hex_list h1) = set (hex_list h2)"
  then show "sortedHex h1 = sortedHex h2"
    unfolding sortedHex_def using assms
    by (intro sorted_distinct_set_unique) simp_all
qed

lemma connecting_edges_comprehension:
  "connecting_edges adjGraph face1 face2 =
     concat (map (\<lambda>a. concat (map (\<lambda>b. if graph_edge adjGraph a b then [(a, b)] else [])
                                   (face_list face2)))
                 (face_list face1))"
proof -
  have inner: "map (Pair a) (filter P xs) = concat (map (\<lambda>b. if P b then [(a, b)] else []) xs)"
    for a :: int and P and xs :: "int list"
    by (induction xs) auto
  have "(case adjGraph a of None \<Rightarrow> []
         | Some adj1 \<Rightarrow> map (Pair a) (filter (\<lambda>p2. p2 \<in> set adj1) (face_list face2)))
        = concat (map (\<lambda>b. if graph_edge adjGraph a b then [(a, b)] else []) (face_list face2))" for a
    by (cases "adjGraph a") (simp_all add: graph_edge_def inner)
  then show ?thesis by (simp add: connecting_edges_def)
qed

text \<open>
  C1 (hexahedron validity): every hexahedron returned by \<open>buildHexahedra\<close>, for any face list
  and any graph, comes from two faces at positions \<open>i < j\<close> of the input list that share no
  vertex; the connecting edges of the pair are exactly the four pairs (slot \<open>k\<close>, slot \<open>k + 4\<close>),
  there are exactly four graph edges from the first face to the second, the first four slots are
  the vertices of the first face and the last four those of the second, each without
  repetition, and the hexahedron has 8 different indices.
\<close>

theorem hexahedron_validity:
  "\<forall>h \<in> set (buildHexahedra validFaces adjGraph).
     \<exists>i j. i < j \<and> j < length validFaces \<and>
       set (face_list (validFaces ! i)) \<inter> set (face_list (validFaces ! j)) = {} \<and>
       connecting_edges adjGraph (validFaces ! i) (validFaces ! j) = zip (hex_first h) (hex_last h) \<and>
       card {(a, b). a \<in> set (face_list (validFaces ! i)) \<and> b \<in> set (face_list (validFaces ! j)) \<and>
                     graph_edge adjGraph a b} = 4 \<and>
       distinct (hex_first h) \<and> set (hex_first h) = set (face_list (validFaces ! i)) \<and>
       distinct (hex_last h) \<and> set (hex_last h) = set (face_list (validFaces ! j)) \<and>
       card (set (hex_list h)) = 8"
proof
  fix h
  assume "h \<in> set (buildHexahedra validFaces adjGraph)"
  then have "h \<in> set (candidateHexahedra validFaces adjGraph)"
    using buildHexahedra_subset by blast
  then obtain i j where ij: "i < j" "j < length validFaces"
    and h: "h \<in> set (hex_of_pair adjGraph (validFaces ! i, validFaces ! j))"
    using candidate_from_pair by blast
  let ?f1 = "validFaces ! i" and ?f2 = "validFaces ! j"
  note v = hex_of_pair_valid[OF h]
  have dh: "distinct (hex_first h)" "distinct (hex_last h)"
    using v(7) by (simp_all add: hex_list_parts)
  have "distinct (zip (hex_first h) (hex_last h))"
    using dh(1) by (rule distinct_zipI1)
  moreover have "length (zip (hex_first h) (hex_last h)) = 4" by (simp add: length_hex_parts)
  ultimately have "card (set (connecting_edges adjGraph ?f1 ?f2)) = 4"
    using v(2) by (simp add: distinct_card)
  then have c4: "card {(a, b). a \<in> set (face_list ?f1) \<and> b \<in> set (face_list ?f2) \<and>
                     graph_edge adjGraph a b} = 4"
    by (simp only: set_connecting_edges)
  have c8: "card (set (hex_list h)) = 8"
    using v(7) by (simp add: distinct_card length_hex_list)
  show "\<exists>i j. i < j \<and> j < length validFaces \<and>
       set (face_list (validFaces ! i)) \<inter> set (face_list (validFaces ! j)) = {} \<and>
       connecting_edges adjGraph (validFaces ! i) (validFaces ! j) = zip (hex_first h) (hex_last h) \<and>
       card {(a, b). a \<in> set (face_list (validFaces ! i)) \<and> b \<in> set (face_list (validFaces ! j)) \<and>
                     graph_edge adjGraph a b} = 4 \<and>
       distinct (hex_first h) \<and> set (hex_first h) = set (face_list (validFaces ! i)) \<and>
       distinct (hex_last h) \<and> set (hex_last h) = set (face_list (validFaces ! j)) \<and>
       card (set (hex_list h)) = 8"
    using ij v(1,2,3,4) c4 dh c8 by (intro exI[of _ i] exI[of _ j] conjI)
qed

text \<open>
  C6 (hexahedron uniqueness): the hexahedra returned by \<open>buildHexahedra\<close> have pairwise
  different canonical keys (the 8 indices sorted ascending) and pairwise different vertex sets;
  the result is the candidate list with every candidate dropped whose key an earlier candidate
  already has, the kept candidates unchanged and in their order.
\<close>

theorem hexahedron_uniqueness:
  "distinct (map sortedHex (buildHexahedra validFaces adjGraph)) \<and>
   distinct (map (\<lambda>h. set (hex_list h)) (buildHexahedra validFaces adjGraph)) \<and>
   buildHexahedra validFaces adjGraph
     = first_occurrences sortedHex (candidateHexahedra validFaces adjGraph)"
proof -
  have d: "distinct (map sortedHex (buildHexahedra validFaces adjGraph))"
    unfolding buildHexahedra_first_occurrences by (rule distinct_first_occurrences)
  have "distinct (map (\<lambda>h. set (hex_list h)) (buildHexahedra validFaces adjGraph))"
  proof (rule distinct_map_transfer[OF d])
    fix x y
    assume "x \<in> set (buildHexahedra validFaces adjGraph)" "y \<in> set (buildHexahedra validFaces adjGraph)"
      and e: "set (hex_list x) = set (hex_list y)"
    then have "distinct (hex_list x)" "distinct (hex_list y)"
      using buildHexahedra_subset candidate_distinct by blast+
    then show "sortedHex x = sortedHex y" using e by (simp add: sortedHex_eq_iff)
  qed
  with d show ?thesis using buildHexahedra_first_occurrences by blast
qed

lemmas hex_eval = candidateHexahedra_def hex_of_pair_def faces_disjoint_def connecting_edges_def
  hex_of_edges_def Let_def

lemma cube_candidates:
  "candidateHexahedra cube_faces cube_graph = [(0, 1, 2, 3, 4, 5, 6, 7), (0, 1, 5, 4, 3, 2, 6, 7)]"
  by (simp add: hex_eval cube_faces_def bottom_face_def top_face_def cube_graph_def)

theorem hexahedron_validity_witness:
  "buildHexahedra cube_faces cube_graph = [(0, 1, 2, 3, 4, 5, 6, 7)] \<and>
   (\<exists>i j. i < j \<and> j < length cube_faces \<and>
       set (face_list (cube_faces ! i)) \<inter> set (face_list (cube_faces ! j)) = {} \<and>
       connecting_edges cube_graph (cube_faces ! i) (cube_faces ! j)
         = [(0, 4), (1, 5), (2, 6), (3, 7)])"
proof -
  have b: "buildHexahedra cube_faces cube_graph = [(0, 1, 2, 3, 4, 5, 6, 7)]"
    by (simp add: buildHexahedra_first_occurrences cube_candidates sortedHex_def)
  then show ?thesis
    using hexahedron_validity[of cube_faces cube_graph] by (simp, blast)
qed

theorem hexahedron_uniqueness_witness:
  "candidateHexahedra cube_faces cube_graph = [(0, 1, 2, 3, 4, 5, 6, 7), (0, 1, 5, 4, 3, 2, 6, 7)] \<and>
   buildHexahedra cube_faces cube_graph = [(0, 1, 2, 3, 4, 5, 6, 7)]"
  using hexahedron_uniqueness[of cube_faces cube_graph]
  by (simp add: cube_candidates sortedHex_def)

text \<open>
  C8: the connecting edges collected for a face pair are the pairs \<open>(a, b)\<close>, \<open>a\<close> a slot of the
  first face and \<open>b\<close> a slot of the second, with \<open>b\<close> in the adjacency set of \<open>a\<close>, in slot
  order; an edge present only from the second face to the first is not collected. With edges in
  one direction only, the pair (bottom, top) gives a hexahedron and the pair (top, bottom) none.
\<close>

theorem connecting_edges_directed:
  "connecting_edges adjGraph face1 face2 =
     concat (map (\<lambda>a. concat (map (\<lambda>b. if graph_edge adjGraph a b then [(a, b)] else [])
                                   (face_list face2)))
                 (face_list face1)) \<and>
   set (connecting_edges adjGraph face1 face2)
     = {(a, b). a \<in> set (face_list face1) \<and> b \<in> set (face_list face2) \<and> graph_edge adjGraph a b} \<and>
   connecting_edges upward_graph bottom_face top_face = [(0, 4), (1, 5), (2, 6), (3, 7)] \<and>
   connecting_edges upward_graph top_face bottom_face = [] \<and>
   buildHexahedra [bottom_face, top_face] upward_graph = [(0, 1, 2, 3, 4, 5, 6, 7)] \<and>
   buildHexahedra [top_face, bottom_face] upward_graph = []"
proof -
  have "connecting_edges upward_graph bottom_face top_face = [(0, 4), (1, 5), (2, 6), (3, 7)]"
    by (simp add: connecting_edges_def bottom_face_def top_face_def upward_graph_def)
  moreover have "connecting_edges upward_graph top_face bottom_face = []"
    by (simp add: connecting_edges_def bottom_face_def top_face_def upward_graph_def)
  moreover have "candidateHexahedra [bottom_face, top_face] upward_graph = [(0, 1, 2, 3, 4, 5, 6, 7)]"
    by (simp add: hex_eval bottom_face_def top_face_def upward_graph_def)
  then have "buildHexahedra [bottom_face, top_face] upward_graph = [(0, 1, 2, 3, 4, 5, 6, 7)]"
    by (simp add: buildHexahedra_first_occurrences)
  moreover have "candidateHexahedra [top_face, bottom_face] upward_graph = []"
    by (simp add: hex_eval bottom_face_def top_face_def upward_graph_def)
  then have "buildHexahedra [top_face, bottom_face] upward_graph = []"
    by (simp add: buildHexahedra_first_occurrences)
  ultimately show ?thesis
    using connecting_edges_comprehension[of adjGraph face1 face2]
      set_connecting_edges[of adjGraph face1 face2] by (intro conjI)
qed

theorem connecting_edges_directed_witness:
  "connecting_edges cube_graph bottom_face top_face = [(0, 4), (1, 5), (2, 6), (3, 7)] \<and>
   connecting_edges cube_graph top_face bottom_face = [(4, 0), (5, 1), (6, 2), (7, 3)]"
  using connecting_edges_directed[of cube_graph bottom_face top_face]
    connecting_edges_directed[of cube_graph top_face bottom_face]
  by (simp add: graph_edge_def cube_graph_def bottom_face_def top_face_def)

section \<open>Properties of findValidFaces\<close>

lemma point_at_position:
  "point_at points k = (if 0 \<le> k \<and> k < int (length points)
                        then Some \<lparr>pos = position points k, required_neighbors = required_neighbors (points ! nat k)\<rparr>
                        else None)"
  by (simp add: point_at_def position_def)

lemma sortedFace_tuple: "sortedFace (a, b, c, d) = sort [a, b, c, d]"
  by (simp add: sortedFace_def)

lemma sortedFace_face_list: "sortedFace f = sort (face_list f)"
  by (cases f) (simp add: sortedFace_def)

lemma passes_checks_tuple:
  "passes_checks points (p0, p1, p2, p3) \<longleftrightarrow>
     ((0 \<le> p0 \<and> p0 < int (length points)) \<and> (0 \<le> p1 \<and> p1 < int (length points)) \<and>
      (0 \<le> p2 \<and> p2 < int (length points)) \<and> (0 \<le> p3 \<and> p3 < int (length points))) \<and>
     \<bar>dotProduct (vsub (position points p1) (position points p0))
        (crossProduct (vsub (position points p2) (position points p0))
                      (vsub (position points p3) (position points p0)))\<bar> < 1 / 1000 \<and>
     edge_sq points p0 p2 > max (max (max (edge_sq points p0 p1) (edge_sq points p1 p2))
                                     (edge_sq points p2 p3)) (edge_sq points p3 p0) * (101 / 100) \<and>
     edge_sq points p1 p3 > max (max (max (edge_sq points p0 p1) (edge_sq points p1 p2))
                                     (edge_sq points p2 p3)) (edge_sq points p3 p0) * (101 / 100)"
  by (simp only: passes_checks_def Let_def prod.case list.pred_inject edge_sq_def
      default_tolerance_def diagonal_factor_def simp_thms)

lemma reads_outside_tuple:
  "reads_outside points (f0, f1, f2, f3) \<longleftrightarrow>
        (f0 < int (length points) \<and> f1 < int (length points) \<and>
         f2 < int (length points) \<and> f3 < int (length points)) \<and>
        (f0 < 0 \<or> f1 < 0 \<or> f2 < 0 \<or> f3 < 0)"
  by (simp only: reads_outside_def prod.case)

lemma passes_checks_range:
  assumes "passes_checks points (p0, p1, p2, p3)"
  shows "0 \<le> p0 \<and> p0 < int (length points)" and "0 \<le> p1 \<and> p1 < int (length points)"
    and "0 \<le> p2 \<and> p2 < int (length points)" and "0 \<le> p3 \<and> p3 < int (length points)"
  using assms by (simp_all only: passes_checks_tuple)

lemma point_at_inside:
  "0 \<le> k \<Longrightarrow> k < int (length points) \<Longrightarrow> point_at points k = Some (points ! nat k)"
  by (simp add: point_at_def)

lemma if_chain:
  "(if A then (if B then (if C then Some s else Some t) else Some s) else Some s)
     = Some (if (A \<and> B) \<and> \<not> C then t else s)"
  by simp

lemma check_face_inside:
  assumes "0 \<le> p0" "0 \<le> p1" "0 \<le> p2" "0 \<le> p3" "p0 < int (length points)"
    "p1 < int (length points)" "p2 < int (length points)" "p3 < int (length points)"
  shows "check_face points (p0, p1, p2, p3) (vf, uf)
           = Some (keep_new sortedFace (passes_checks points) (p0, p1, p2, p3) (vf, uf))"
proof -
  have nh: "\<not> (p0 \<ge> int (length points) \<or> p1 \<ge> int (length points) \<or>
           p2 \<ge> int (length points) \<or> p3 \<ge> int (length points))"
    using assms by simp
  have rg: "list_all (\<lambda>k. 0 \<le> k \<and> k < int (length points)) [p0, p1, p2, p3]"
    using assms by simp
  note pa = point_at_inside[OF assms(1,5)] point_at_inside[OF assms(2,6)]
    point_at_inside[OF assms(3,7)] point_at_inside[OF assms(4,8)]
  show ?thesis
    by (simp only: check_face_def arePointsCoplanar_def prod.case nh if_False pa
        Option.bind.bind_lunit Let_def keep_new_def passes_checks_def rg simp_thms position_def
        if_chain)
qed

lemma check_face_eq:
  "check_face points face st =
     (if reads_outside points face then None
      else Some (keep_new sortedFace (passes_checks points) face st))"
proof -
  obtain p0 p1 p2 p3 where f: "face = (p0, p1, p2, p3)" by (cases face) auto
  obtain vf uf where st: "st = (vf, uf)" by (cases st)
  consider (high) "p0 \<ge> int (length points) \<or> p1 \<ge> int (length points) \<or>
           p2 \<ge> int (length points) \<or> p3 \<ge> int (length points)"
    | (neg) "p0 < int (length points)" "p1 < int (length points)" "p2 < int (length points)"
        "p3 < int (length points)" "p0 < 0 \<or> p1 < 0 \<or> p2 < 0 \<or> p3 < 0"
    | (ok) "0 \<le> p0" "0 \<le> p1" "0 \<le> p2" "0 \<le> p3" "p0 < int (length points)"
        "p1 < int (length points)" "p2 < int (length points)" "p3 < int (length points)"
    by linarith
  then show ?thesis
  proof cases
    case high
    then have "arePointsCoplanar points (p0, p1, p2, p3) default_tolerance = Some False"
      by (simp add: arePointsCoplanar_def)
    moreover have "\<not> reads_outside points (p0, p1, p2, p3)"
      using high by (simp only: reads_outside_tuple) linarith
    moreover have "\<not> passes_checks points (p0, p1, p2, p3)"
      using high passes_checks_range[of points p0 p1 p2 p3] by linarith
    ultimately show ?thesis by (simp add: f st check_face_def keep_new_def)
  next
    case neg
    then have "arePointsCoplanar points (p0, p1, p2, p3) default_tolerance = None"
      by (auto simp: arePointsCoplanar_def point_at_def)
    moreover have "reads_outside points (p0, p1, p2, p3)"
      using neg by (simp only: reads_outside_tuple simp_thms)
    ultimately show ?thesis by (simp add: f st check_face_def)
  next
    case ok
    then have r: "\<not> reads_outside points (p0, p1, p2, p3)"
      by (simp only: reads_outside_tuple) linarith
    show ?thesis unfolding f st using r check_face_inside[OF ok] by simp
  qed
qed

lemma foldM_append:
  "foldM f (xs @ ys) s = (case foldM f xs s of None \<Rightarrow> None | Some s' \<Rightarrow> foldM f ys s')"
  by (induction xs arbitrary: s) (auto split: option.splits)

lemma foldM_concat_map:
  "foldM (\<lambda>x s. foldM f (c x) s) xs s = foldM f (concat (map c xs)) s"
  by (induction xs arbitrary: s) (auto simp: foldM_append split: option.splits)

lemma foldM_filter_map:
  "foldM (\<lambda>x s. if P x then f (h x) s else Some s) xs s = foldM f (map h (filter P xs)) s"
  by (induction xs arbitrary: s) (auto split: option.splits)

lemma foldM_total:
  "foldM (\<lambda>c s. if bad c then None else Some (step c s)) cs s
     = (if \<exists>c \<in> set cs. bad c then None else Some (fold step cs s))"
  by (induction cs arbitrary: s) auto

lemma faces_of_pair_flat:
  "faces_of_pair points adjGraph p0 pr st
     = foldM (check_face points) (candidates_of_pair adjGraph p0 pr) st"
proof -
  obtain p1 p3 where pr: "pr = (p1, p3)" by (cases pr)
  have "foldM (\<lambda>p2 st'. if p2 \<noteq> p0 \<and> p2 \<in> set adj3
                         then check_face points (p0, p1, p2, p3) st' else Some st') adj1 st
        = foldM (check_face points)
            (map (\<lambda>p2. (p0, p1, p2, p3)) (filter (\<lambda>p2. p2 \<noteq> p0 \<and> p2 \<in> set adj3) adj1)) st"
    for adj1 adj3
    by (rule foldM_filter_map[where f = "check_face points" and h = "\<lambda>p2. (p0, p1, p2, p3)"])
  then show ?thesis
    by (simp add: pr faces_of_pair_def candidates_of_pair_def split: option.splits)
qed

lemma faces_of_point_flat:
  "faces_of_point points adjGraph p0 st
     = foldM (check_face points) (candidates_of_point adjGraph p0) st"
proof (cases "adjGraph p0")
  case None
  then show ?thesis by (simp add: faces_of_point_def candidates_of_point_def)
next
  case (Some ns)
  have "faces_of_pair points adjGraph p0
          = (\<lambda>pr s. foldM (check_face points) (candidates_of_pair adjGraph p0 pr) s)"
    by (intro ext) (rule faces_of_pair_flat)
  then show ?thesis using Some
    by (simp add: faces_of_point_def candidates_of_point_def foldM_concat_map)
qed

lemma findValidFaces_flat:
  "findValidFaces points adjGraph
     = map_option fst (foldM (check_face points) (faceCandidates points adjGraph) ([], {}))"
proof -
  have "faces_of_point points adjGraph
          = (\<lambda>p0 s. foldM (check_face points) (candidates_of_point adjGraph p0) s)"
    by (intro ext) (rule faces_of_point_flat)
  then show ?thesis
    by (simp only: findValidFaces_def faceCandidates_def foldM_concat_map)
qed

lemma findValidFaces_eq:
  "findValidFaces points adjGraph =
     (if \<exists>c \<in> set (faceCandidates points adjGraph). reads_outside points c then None
      else Some (first_occurrences sortedFace
                   (filter (passes_checks points) (faceCandidates points adjGraph))))"
proof -
  have "check_face points
          = (\<lambda>c s. if reads_outside points c then None
                    else Some (keep_new sortedFace (passes_checks points) c s))"
    by (intro ext) (rule check_face_eq)
  then show ?thesis
    by (simp add: findValidFaces_flat foldM_total fold_keep_new)
qed


lemma lengthSquared_nonneg: "0 \<le> lengthSquared v"
  by (cases v) simp

lemma lengthSquared_vsub_commute: "lengthSquared (vsub a b) = lengthSquared (vsub b a)"
  by (cases a; cases b) (simp add: algebra_simps)

lemma lengthSquared_vsub_self: "lengthSquared (vsub a a) = 0"
  by (cases a) simp

lemma edge_sq_simps:
  "0 \<le> edge_sq points a b" "edge_sq points a b = edge_sq points b a" "edge_sq points a a = 0"
  unfolding edge_sq_def
  by (rule lengthSquared_nonneg, rule lengthSquared_vsub_commute, rule lengthSquared_vsub_self)

lemma passes_checks_edges:
  assumes "passes_checks points (p0, p1, p2, p3)"
  shows "edge_sq points p0 p2 > diagonal_factor * Max {edge_sq points p0 p1, edge_sq points p1 p2,
                                             edge_sq points p2 p3, edge_sq points p3 p0}"
    and "edge_sq points p1 p3 > diagonal_factor * Max {edge_sq points p0 p1, edge_sq points p1 p2,
                                             edge_sq points p2 p3, edge_sq points p3 p0}"
proof -
  have m: "Max {edge_sq points p0 p1, edge_sq points p1 p2, edge_sq points p2 p3, edge_sq points p3 p0}
        = max (max (max (edge_sq points p0 p1) (edge_sq points p1 p2)) (edge_sq points p2 p3))
              (edge_sq points p3 p0)"
    by (simp add: max.commute max.left_commute max.assoc)
  show "edge_sq points p0 p2 > diagonal_factor * Max {edge_sq points p0 p1, edge_sq points p1 p2,
                                             edge_sq points p2 p3, edge_sq points p3 p0}"
    and "edge_sq points p1 p3 > diagonal_factor * Max {edge_sq points p0 p1, edge_sq points p1 p2,
                                             edge_sq points p2 p3, edge_sq points p3 p0}"
    unfolding m using assms
    by (simp_all add: passes_checks_def edge_sq_def Let_def mult.commute)
qed

lemma passes_checks_distinct:
  assumes "passes_checks points (p0, p1, p2, p3)"
  shows "distinct [p0, p1, p2, p3]"
proof -
  let ?m = "Max {edge_sq points p0 p1, edge_sq points p1 p2, edge_sq points p2 p3, edge_sq points p3 p0}"
  note e = passes_checks_edges[OF assms]
  have ge: "edge_sq points p0 p1 \<le> ?m" "edge_sq points p1 p2 \<le> ?m"
    "edge_sq points p2 p3 \<le> ?m" "edge_sq points p3 p0 \<le> ?m"
    by simp_all
  have m0: "0 \<le> ?m" using ge(1) edge_sq_simps(1)[of points p0 p1] by linarith
  then have "?m \<le> diagonal_factor * ?m" by (simp add: diagonal_factor_def)
  then have d02: "?m < edge_sq points p0 p2" and d13: "?m < edge_sq points p1 p3"
    using e by linarith+
  have "p0 \<noteq> p1" using d02 ge(2) by auto
  moreover have "p0 \<noteq> p2" using d02 m0 by (auto simp: edge_sq_simps(3))
  moreover have "p0 \<noteq> p3" using d02 ge(3) edge_sq_simps(2)[of points p2 p3] by auto
  moreover have "p1 \<noteq> p2" using d02 ge(1) by auto
  moreover have "p1 \<noteq> p3" using d13 m0 by (auto simp: edge_sq_simps(3))
  moreover have "p2 \<noteq> p3" using d02 ge(4) edge_sq_simps(2)[of points p3 p0] by auto
  ultimately show ?thesis by simp
qed

lemma in_faceCandidates:
  assumes "(p0, p1, p2, p3) \<in> set (faceCandidates points adjGraph)"
  shows "\<exists>adj0 adj1 adj3. 0 \<le> p0 \<and> p0 < int (length points) \<and> adjGraph p0 = Some adj0 \<and>
           (p1, p3) \<in> set (pairs_of adj0) \<and> adjGraph p1 = Some adj1 \<and> adjGraph p3 = Some adj3 \<and>
           p2 \<in> set adj1 \<and> p2 \<in> set adj3 \<and> p2 \<noteq> p0"
proof -
  from assms obtain q where q: "q < length points"
    and c: "(p0, p1, p2, p3) \<in> set (candidates_of_point adjGraph (int q))"
    by (auto simp: faceCandidates_def)
  from c obtain adj0 where a0: "adjGraph (int q) = Some adj0"
    by (cases "adjGraph (int q)") (auto simp: candidates_of_point_def)
  with c obtain pr where pr: "pr \<in> set (pairs_of adj0)"
    and c2: "(p0, p1, p2, p3) \<in> set (candidates_of_pair adjGraph (int q) pr)"
    by (auto simp: candidates_of_point_def)
  obtain a b where ab: "pr = (a, b)" by (cases pr)
  from c2 ab obtain adj1 where a1: "adjGraph a = Some adj1"
    by (cases "adjGraph a") (auto simp: candidates_of_pair_def)
  from c2 ab a1 obtain adj3 where a3: "adjGraph b = Some adj3"
    by (cases "adjGraph b") (auto simp: candidates_of_pair_def)
  from c2 ab a1 a3 have "p0 = int q \<and> p1 = a \<and> p3 = b \<and> p2 \<in> set adj1 \<and> p2 \<noteq> int q \<and> p2 \<in> set adj3"
    by (auto simp: candidates_of_pair_def)
  then show ?thesis using q a0 pr ab a1 a3 by auto
qed

lemma nonneg_graph_defined:
  assumes "nonneg_graph adjGraph" and "c \<in> set (faceCandidates points adjGraph)"
  shows "\<not> reads_outside points c"
proof -
  obtain p0 p1 p2 p3 where c: "c = (p0, p1, p2, p3)" by (cases c) auto
  from in_faceCandidates[OF assms(2)[unfolded c]]
  obtain adj0 adj1 adj3 where f: "0 \<le> p0" "adjGraph p0 = Some adj0" "(p1, p3) \<in> set (pairs_of adj0)"
    "adjGraph p1 = Some adj1" "p2 \<in> set adj1" by blast
  from f(3) have "p1 \<in> set adj0" "p3 \<in> set adj0" using in_pairs_of by fastforce+
  then have "0 \<le> p1" "0 \<le> p3" "0 \<le> p2"
    using assms(1) f(2,4,5) unfolding nonneg_graph_def by blast+
  then show ?thesis using f(1) by (simp add: c reads_outside_def)
qed

lemma findValidFaces_Some:
  assumes "findValidFaces points adjGraph = Some faces"
  shows "faces = first_occurrences sortedFace
                   (filter (passes_checks points) (faceCandidates points adjGraph))"
  using assms by (simp add: findValidFaces_eq split: if_splits)

lemma face_passes_checks:
  assumes "findValidFaces points adjGraph = Some faces" and "f \<in> set faces"
  shows "passes_checks points f"
proof -
  let ?cs = "filter (passes_checks points) (faceCandidates points adjGraph)"
  have "faces = first_occurrences sortedFace ?cs"
    by (rule findValidFaces_Some[OF assms(1)])
  then have "set faces \<subseteq> set ?cs"
    by (simp only: set_first_occurrences)
  then have "f \<in> set ?cs" using assms(2) by (rule subsetD)
  then show ?thesis by simp
qed


lemmas face_eval = findValidFaces_eq faceCandidates_def candidates_of_point_def candidates_of_pair_def
  passes_checks_tuple reads_outside_tuple edge_sq_def position_def mesh_point_def sortedFace_tuple upt_rec

lemma faces_distinct_vertices:
  assumes "findValidFaces points g = Some faces" and "f \<in> set faces"
  shows "distinct (face_list f)"
  using passes_checks_distinct[of points] face_passes_checks[OF assms] by (cases f) auto

lemma faces_distinct_sets:
  assumes fv: "findValidFaces points g = Some faces"
  shows "distinct (map (\<lambda>f. set (face_list f)) faces)"
proof -
  have d: "distinct (map sortedFace faces)"
    unfolding findValidFaces_Some[OF fv] by (rule distinct_first_occurrences)
  show ?thesis
  proof (rule distinct_map_transfer[OF d])
    fix x y
    assume x: "x \<in> set faces" and y: "y \<in> set faces"
      and e: "set (face_list x) = set (face_list y)"
    show "sortedFace x = sortedFace y"
      unfolding sortedFace_face_list
      using e faces_distinct_vertices[OF fv x] faces_distinct_vertices[OF fv y]
      by (intro sorted_distinct_set_unique) simp_all
  qed
qed



text \<open>
  C7 (indices outside the point sequence): the guard of arePointsCoplanar tests each index
  against the size only. For one point and a graph with negative indices the candidate
  (0, -1, -3, -2) passes the guard and the point vector is read at index -1, outside its
  bounds: the candidate is not rejected, the behaviour is undefined.
\<close>

theorem negative_index_read:
  "faceCandidates [mesh_point 0 0 0 2] negative_graph = [(0, - 1, - 3, - 2)] \<and>
   arePointsCoplanar [mesh_point 0 0 0 2] (0, - 1, - 3, - 2) default_tolerance = None \<and>
   findValidFaces [mesh_point 0 0 0 2] negative_graph = None"
proof -
  have "faceCandidates [mesh_point 0 0 0 2] negative_graph = [(0, - 1, - 3, - 2)]"
    by (simp add: faceCandidates_def candidates_of_point_def candidates_of_pair_def negative_graph_def)
  moreover have "arePointsCoplanar [mesh_point 0 0 0 2] (0, - 1, - 3, - 2) default_tolerance = None"
    by (simp add: arePointsCoplanar_def point_at_def)
  moreover have "findValidFaces [mesh_point 0 0 0 2] negative_graph = None"
    by (simp add: face_eval negative_graph_def)
  ultimately show ?thesis by (intro conjI)
qed

text \<open>An index at or above the size does make the guard reject the candidate.\<close>

lemma index_above_rejected:
  assumes "f0 \<ge> int (length points) \<or> f1 \<ge> int (length points) \<or>
           f2 \<ge> int (length points) \<or> f3 \<ge> int (length points)"
  shows "arePointsCoplanar points (f0, f1, f2, f3) tolerance = Some False"
    and "check_face points (f0, f1, f2, f3) st = Some st"
proof -
  show "arePointsCoplanar points (f0, f1, f2, f3) tolerance = Some False"
    using assms by (simp add: arePointsCoplanar_def)
  have "\<not> reads_outside points (f0, f1, f2, f3)"
    using assms by (simp only: reads_outside_tuple) linarith
  moreover have "\<not> passes_checks points (f0, f1, f2, f3)"
    using assms passes_checks_range[of points f0 f1 f2 f3] by linarith
  ultimately show "check_face points (f0, f1, f2, f3) st = Some st"
    by (cases st) (simp add: check_face_eq keep_new_def)
qed

section \<open>Independence of the iteration order of the adjacency sets\<close>

text \<open>
  The order in which an unordered_set is iterated is not fixed by the language. With another
  order findValidFaces reaches a face from the same first vertex in the other direction; the
  checks and the canonical key do not change, so the same vertex sets are found, and on a
  symmetric graph the same hexahedra.
\<close>

lemma faceCandidates_iff:
  "(p0, p1, p2, p3) \<in> set (faceCandidates points adjGraph) \<longleftrightarrow>
     0 \<le> p0 \<and> p0 < int (length points) \<and>
     (\<exists>adj0 adj1 adj3. adjGraph p0 = Some adj0 \<and> (p1, p3) \<in> set (pairs_of adj0) \<and>
        adjGraph p1 = Some adj1 \<and> adjGraph p3 = Some adj3 \<and>
        p2 \<in> set adj1 \<and> p2 \<in> set adj3 \<and> p2 \<noteq> p0)"
proof
  assume "(p0, p1, p2, p3) \<in> set (faceCandidates points adjGraph)"
  from in_faceCandidates[OF this]
  show "0 \<le> p0 \<and> p0 < int (length points) \<and>
     (\<exists>adj0 adj1 adj3. adjGraph p0 = Some adj0 \<and> (p1, p3) \<in> set (pairs_of adj0) \<and>
        adjGraph p1 = Some adj1 \<and> adjGraph p3 = Some adj3 \<and>
        p2 \<in> set adj1 \<and> p2 \<in> set adj3 \<and> p2 \<noteq> p0)"
    by blast
next
  assume r: "0 \<le> p0 \<and> p0 < int (length points) \<and>
     (\<exists>adj0 adj1 adj3. adjGraph p0 = Some adj0 \<and> (p1, p3) \<in> set (pairs_of adj0) \<and>
        adjGraph p1 = Some adj1 \<and> adjGraph p3 = Some adj3 \<and>
        p2 \<in> set adj1 \<and> p2 \<in> set adj3 \<and> p2 \<noteq> p0)"
  then obtain adj0 adj1 adj3 where a: "adjGraph p0 = Some adj0" "(p1, p3) \<in> set (pairs_of adj0)"
    "adjGraph p1 = Some adj1" "adjGraph p3 = Some adj3" "p2 \<in> set adj1" "p2 \<in> set adj3" "p2 \<noteq> p0"
    by blast
  have "(p0, p1, p2, p3) \<in> set (candidates_of_pair adjGraph p0 (p1, p3))"
    using a by (simp add: candidates_of_pair_def)
  then have "(p0, p1, p2, p3) \<in> set (candidates_of_point adjGraph p0)"
    using a(1,2) by (auto simp: candidates_of_point_def)
  moreover have "p0 \<in> set (map int [0..<length points])"
    using r by (simp add: int_image_upt del: upt.simps)
  ultimately show "(p0, p1, p2, p3) \<in> set (faceCandidates points adjGraph)"
    unfolding faceCandidates_def by auto
qed

lemma same_adjacency_sym: "same_adjacency g g' \<Longrightarrow> same_adjacency g' g"
  unfolding same_adjacency_def
proof
  fix k
  assume "\<forall>k. rel_option (\<lambda>a b. set a = set b) (g k) (g' k)"
  then have "rel_option (\<lambda>a b. set a = set b) (g k) (g' k)" by blast
  then show "rel_option (\<lambda>a b. set a = set b) (g' k) (g k)"
    by (cases "g k"; cases "g' k") auto
qed

lemma same_adjacency_Some:
  assumes "same_adjacency g g'" and "g' k = Some adj'"
  shows "\<exists>adj. g k = Some adj \<and> set adj = set adj'"
proof -
  have "rel_option (\<lambda>a b. set a = set b) (g k) (g' k)"
    using assms(1) unfolding same_adjacency_def by blast
  then show ?thesis using assms(2) by (cases "g k") auto
qed

lemma candidate_or_flipped:
  assumes s: "same_adjacency g g'" and d: "distinct_adjacency g" "distinct_adjacency g'"
    and c: "c \<in> set (faceCandidates points g')"
  shows "c \<in> set (faceCandidates points g) \<or> flip_face c \<in> set (faceCandidates points g)"
proof -
  obtain p0 p1 p2 p3 where f: "c = (p0, p1, p2, p3)" by (cases c) auto
  from c[unfolded f faceCandidates_iff]
  obtain adj0' adj1' adj3' where r: "0 \<le> p0" "p0 < int (length points)"
    and a': "g' p0 = Some adj0'" "(p1, p3) \<in> set (pairs_of adj0')"
    "g' p1 = Some adj1'" "g' p3 = Some adj3'" "p2 \<in> set adj1'" "p2 \<in> set adj3'" "p2 \<noteq> p0"
    by blast
  from same_adjacency_Some[OF s a'(1)] obtain adj0 where a0: "g p0 = Some adj0" "set adj0 = set adj0'"
    by blast
  from same_adjacency_Some[OF s a'(3)] obtain adj1 where a1: "g p1 = Some adj1" "set adj1 = set adj1'"
    by blast
  from same_adjacency_Some[OF s a'(4)] obtain adj3 where a3: "g p3 = Some adj3" "set adj3 = set adj3'"
    by blast
  have "distinct adj0'" "distinct adj0"
    using d a'(1) a0(1) unfolding distinct_adjacency_def by blast+
  then have "(p1, p3) \<in> set (pairs_of adj0) \<or> (p3, p1) \<in> set (pairs_of adj0)"
    using pairs_of_distinct[of adj0' p1 p3] pairs_of_distinct[of adj0 p1 p3] a'(2) a0(2) by blast
  then show ?thesis
  proof
    assume "(p1, p3) \<in> set (pairs_of adj0)"
    then have "(p0, p1, p2, p3) \<in> set (faceCandidates points g)"
      unfolding faceCandidates_iff using r a0 a1 a3 a'(5,6,7) by blast
    then show ?thesis by (simp add: f)
  next
    assume "(p3, p1) \<in> set (pairs_of adj0)"
    then have "(p0, p3, p2, p1) \<in> set (faceCandidates points g)"
      unfolding faceCandidates_iff using r a0 a1 a3 a'(5,6,7) by blast
    then show ?thesis by (simp add: f)
  qed
qed

lemma triple_product_flip:
  "dotProduct c (crossProduct b a) = - dotProduct a (crossProduct b c)"
  by (cases a; cases b; cases c) (simp add: algebra_simps)

lemma passes_checks_flip: "passes_checks points (flip_face c) = passes_checks points c"
proof -
  obtain p0 p1 p2 p3 where f: "c = (p0, p1, p2, p3)" by (cases c) auto
  have m: "max (max (max (edge_sq points p0 p3) (edge_sq points p3 p2)) (edge_sq points p2 p1))
               (edge_sq points p1 p0)
         = max (max (max (edge_sq points p0 p1) (edge_sq points p1 p2)) (edge_sq points p2 p3))
               (edge_sq points p3 p0)"
    using edge_sq_simps(2)[of points p0 p3] edge_sq_simps(2)[of points p3 p2]
      edge_sq_simps(2)[of points p2 p1] edge_sq_simps(2)[of points p1 p0]
    by (simp only: max.commute max.left_commute max.assoc)
  have t: "\<bar>dotProduct (vsub (position points p3) (position points p0))
             (crossProduct (vsub (position points p2) (position points p0))
                           (vsub (position points p1) (position points p0)))\<bar>
         = \<bar>dotProduct (vsub (position points p1) (position points p0))
             (crossProduct (vsub (position points p2) (position points p0))
                           (vsub (position points p3) (position points p0)))\<bar>"
    by (subst triple_product_flip) (simp only: abs_minus)
  have e: "edge_sq points p3 p1 = edge_sq points p1 p3"
    by (rule edge_sq_simps(2))
  show ?thesis
    unfolding f flip_face.simps passes_checks_tuple m t e by blast
qed

lemma sortedFace_flip: "sortedFace (flip_face c) = sortedFace c"
proof -
  obtain p0 p1 p2 p3 where f: "c = (p0, p1, p2, p3)" by (cases c) auto
  have "sort [p0, p3, p2, p1] = sort [p0, p1, p2, p3]"
    by (rule properties_for_sort) simp_all
  then show ?thesis by (simp add: f sortedFace_tuple)
qed

lemma reads_outside_flip: "reads_outside points (flip_face c) = reads_outside points c"
proof -
  obtain p0 p1 p2 p3 where f: "c = (p0, p1, p2, p3)" by (cases c) auto
  show ?thesis unfolding f flip_face.simps reads_outside_tuple by blast
qed


lemma passing_keys_subset:
  assumes "same_adjacency g g'" "distinct_adjacency g" "distinct_adjacency g'"
  shows "sortedFace ` {c \<in> set (faceCandidates points g'). passes_checks points c}
           \<subseteq> sortedFace ` {c \<in> set (faceCandidates points g). passes_checks points c}"
proof
  fix k
  assume "k \<in> sortedFace ` {c \<in> set (faceCandidates points g'). passes_checks points c}"
  then obtain c where c: "c \<in> set (faceCandidates points g')" "passes_checks points c"
    "k = sortedFace c" by blast
  from candidate_or_flipped[OF assms c(1)]
  show "k \<in> sortedFace ` {c \<in> set (faceCandidates points g). passes_checks points c}"
  proof
    assume "c \<in> set (faceCandidates points g)"
    then show ?thesis using c by blast
  next
    assume "flip_face c \<in> set (faceCandidates points g)"
    moreover have "passes_checks points (flip_face c)" using c(2) by (simp add: passes_checks_flip)
    moreover have "k = sortedFace (flip_face c)" using c(3) by (simp add: sortedFace_flip)
    ultimately show ?thesis by blast
  qed
qed

lemma reads_outside_transfer:
  assumes "same_adjacency g g'" "distinct_adjacency g" "distinct_adjacency g'"
    and "\<exists>c \<in> set (faceCandidates points g'). reads_outside points c"
  shows "\<exists>c \<in> set (faceCandidates points g). reads_outside points c"
proof -
  from assms(4) obtain c where c: "c \<in> set (faceCandidates points g')" "reads_outside points c"
    by blast
  from candidate_or_flipped[OF assms(1,2,3) c(1)] show ?thesis
  proof
    assume "c \<in> set (faceCandidates points g)"
    then show ?thesis using c(2) by blast
  next
    assume "flip_face c \<in> set (faceCandidates points g)"
    moreover have "reads_outside points (flip_face c)" using c(2) by (simp add: reads_outside_flip)
    ultimately show ?thesis by blast
  qed
qed

lemma findValidFaces_any_order:
  assumes s: "same_adjacency g g'" and d: "distinct_adjacency g" "distinct_adjacency g'"
    and f: "findValidFaces points g = Some faces"
  shows "\<exists>faces'. findValidFaces points g' = Some faces' \<and> length faces' = length faces \<and>
           sortedFace ` set faces' = sortedFace ` set faces"
proof -
  let ?P = "\<lambda>g. filter (passes_checks points) (faceCandidates points g)"
  have no: "\<not> (\<exists>c \<in> set (faceCandidates points g). reads_outside points c)"
    using f by (auto simp: findValidFaces_eq split: if_splits)
  then have no': "\<not> (\<exists>c \<in> set (faceCandidates points g'). reads_outside points c)"
    using reads_outside_transfer[OF s d] by blast
  have faces: "faces = first_occurrences sortedFace (?P g)"
    by (rule findValidFaces_Some[OF f])
  have f': "findValidFaces points g' = Some (first_occurrences sortedFace (?P g'))"
    using no' by (simp only: findValidFaces_eq if_False)
  have "sortedFace ` {c \<in> set (faceCandidates points g'). passes_checks points c}
      = sortedFace ` {c \<in> set (faceCandidates points g). passes_checks points c}"
    using passing_keys_subset[OF s d] passing_keys_subset[OF same_adjacency_sym[OF s] d(2,1)]
    by (rule subset_antisym)
  then have k: "sortedFace ` set (?P g') = sortedFace ` set (?P g)"
    by simp
  have "length (first_occurrences sortedFace (?P g')) = length faces"
    unfolding faces length_first_occurrences k ..
  moreover have "sortedFace ` set (first_occurrences sortedFace (?P g')) = sortedFace ` set faces"
    unfolding faces image_first_occurrences k ..
  ultimately show ?thesis using f' by blast
qed

lemma graph_edge_same: "same_adjacency g g' \<Longrightarrow> graph_edge g' a b = graph_edge g a b"
proof -
  assume "same_adjacency g g'"
  then have "rel_option (\<lambda>a b. set a = set b) (g a) (g' a)"
    unfolding same_adjacency_def by blast
  then show ?thesis
    by (cases "g a"; cases "g' a") (auto simp: graph_edge_def)
qed

lemma buildHexahedra_same:
  assumes "same_adjacency g g'"
  shows "buildHexahedra fs g' = buildHexahedra fs g"
proof -
  have "connecting_edges g' f1 f2 = connecting_edges g f1 f2" for f1 f2
    by (simp only: connecting_edges_comprehension graph_edge_same[OF assms])
  then have "hex_of_pair g' = hex_of_pair g"
    by (intro ext) (simp add: hex_of_pair_def split: prod.splits)
  then show ?thesis
    by (simp add: buildHexahedra_def candidateHexahedra_def)
qed

lemma connecting_edges_product:
  "connecting_edges g f1 f2
     = filter (\<lambda>(a, b). graph_edge g a b) (List.product (face_list f1) (face_list f2))"
proof -
  have inner: "concat (map (\<lambda>b. if graph_edge g a b then [(a, b)] else []) ys)
                 = filter (\<lambda>(a, b). graph_edge g a b) (map (Pair a) ys)" for a ys
    by (induction ys) auto
  have "concat (map (\<lambda>a. concat (map (\<lambda>b. if graph_edge g a b then [(a, b)] else []) ys)) xs)
          = filter (\<lambda>(a, b). graph_edge g a b) (List.product xs ys)" for xs ys
    by (induction xs) (simp_all add: inner)
  then show ?thesis by (simp only: connecting_edges_comprehension)
qed

lemma distinct_connecting_edges:
  "distinct (face_list f1) \<Longrightarrow> distinct (face_list f2) \<Longrightarrow> distinct (connecting_edges g f1 f2)"
  by (simp add: connecting_edges_product distinct_product)

lemma set_connecting_edges_between:
  "set (connecting_edges g f1 f2) = edges_between g (set (face_list f1)) (set (face_list f2))"
  by (simp only: set_connecting_edges edges_between_def)

lemma card_four_iff:
  assumes "A \<subseteq> B" "finite B" "card B = 4"
  shows "card A = 4 \<longleftrightarrow> A = B"
  using assms card_subset_eq[of B A] by auto

lemma hex_of_pair_nonempty_iff:
  assumes d: "distinct (face_list f1)" "distinct (face_list f2)"
  shows "hex_of_pair g (f1, f2) \<noteq> [] \<longleftrightarrow> joinable g (set (face_list f1)) (set (face_list f2))"
proof -
  let ?ce = "connecting_edges g f1 f2"
  let ?E = "edges_between g (set (face_list f1)) (set (face_list f2))"
  have c: "card (set (face_list f1)) = 4" "card (set (face_list f2)) = 4"
    using d by (simp_all add: distinct_card length_face_list)
  have l: "length ?ce = card ?E"
    using distinct_card[OF distinct_connecting_edges[OF d, of g]]
    by (simp only: set_connecting_edges_between)
  have s1: "set (map fst ?ce) = fst ` ?E" and s2: "set (map snd ?ce) = snd ` ?E"
    by (simp_all only: set_map set_connecting_edges_between)
  have i1: "fst ` ?E \<subseteq> set (face_list f1)" and i2: "snd ` ?E \<subseteq> set (face_list f2)"
    by (auto simp: edges_between_def)
  have e1: "card (fst ` ?E) = 4 \<longleftrightarrow> fst ` ?E = set (face_list f1)"
    by (rule card_four_iff[OF i1 _ c(1)]) simp
  have e2: "card (snd ` ?E) = 4 \<longleftrightarrow> snd ` ?E = set (face_list f2)"
    by (rule card_four_iff[OF i2 _ c(2)]) simp
  have "hex_of_pair g (f1, f2) \<noteq> [] \<longleftrightarrow>
          faces_disjoint f1 f2 \<and> length ?ce = 4 \<and> card (set (map fst ?ce)) = 4 \<and>
          card (set (map snd ?ce)) = 4"
    by (simp add: hex_of_pair_def Let_def)
  then show ?thesis
    unfolding joinable_def l s1 s2 e1 e2 faces_disjoint_iff by blast
qed

lemma hex_of_pair_key:
  assumes "h \<in> set (hex_of_pair g (f1, f2))"
  shows "sortedHex h = sorted_list_of_set (set (face_list f1) \<union> set (face_list f2))"
proof -
  note v = hex_of_pair_valid[OF assms]
  have "set (hex_list h) = set (face_list f1) \<union> set (face_list f2)"
    using v(3,4) by (simp add: hex_list_parts)
  then have "sorted_list_of_set (set (face_list f1) \<union> set (face_list f2)) = sort (remdups (hex_list h))"
    by (simp only: sorted_list_of_set_sort_remdups[symmetric])
  then show ?thesis using v(7) by (simp add: sortedHex_def distinct_remdups_id)
qed


lemma candidate_keys:
  assumes d: "\<forall>f \<in> set fs. distinct (face_list f)"
  shows "sortedHex ` set (candidateHexahedra fs g) =
           {sorted_list_of_set (set (face_list f1) \<union> set (face_list f2)) | f1 f2.
              (f1, f2) \<in> set (pairs_of fs) \<and> joinable g (set (face_list f1)) (set (face_list f2))}"
    (is "?L = ?R")
proof (rule set_eqI)
  fix k
  show "k \<in> ?L \<longleftrightarrow> k \<in> ?R"
  proof
    assume "k \<in> ?L"
    then obtain h where h: "h \<in> set (candidateHexahedra fs g)" "k = sortedHex h" by blast
    from h(1) obtain f1 f2 where p: "(f1, f2) \<in> set (pairs_of fs)"
      and hp: "h \<in> set (hex_of_pair g (f1, f2))"
      by (auto simp: candidateHexahedra_def)
    from in_pairs_of[OF p] d have df: "distinct (face_list f1)" "distinct (face_list f2)" by blast+
    have "hex_of_pair g (f1, f2) \<noteq> []" using hp by auto
    then have "joinable g (set (face_list f1)) (set (face_list f2))"
      by (simp only: hex_of_pair_nonempty_iff[OF df])
    then show "k \<in> ?R" using p h(2) hex_of_pair_key[OF hp] by blast
  next
    assume "k \<in> ?R"
    then obtain f1 f2 where p: "(f1, f2) \<in> set (pairs_of fs)"
      and j: "joinable g (set (face_list f1)) (set (face_list f2))"
      and k: "k = sorted_list_of_set (set (face_list f1) \<union> set (face_list f2))" by blast
    from in_pairs_of[OF p] d have df: "distinct (face_list f1)" "distinct (face_list f2)" by blast+
    from j have "hex_of_pair g (f1, f2) \<noteq> []"
      by (simp only: hex_of_pair_nonempty_iff[OF df])
    then obtain h where hp: "h \<in> set (hex_of_pair g (f1, f2))"
      by (metis list.set_intros(1) neq_Nil_conv)
    then have "h \<in> set (candidateHexahedra fs g)"
      using p by (auto simp: candidateHexahedra_def)
    then show "k \<in> ?L" using k hex_of_pair_key[OF hp] by force
  qed
qed

lemma edges_between_converse:
  assumes "symmetric_graph g"
  shows "edges_between g S2 S1 = (edges_between g S1 S2)\<inverse>"
  using assms unfolding symmetric_graph_def edges_between_def by auto

lemma joinable_sym:
  assumes "symmetric_graph g" and "joinable g S1 S2"
  shows "joinable g S2 S1"
proof -
  let ?E = "edges_between g S1 S2"
  have e: "edges_between g S2 S1 = ?E\<inverse>" by (rule edges_between_converse[OF assms(1)])
  have "fst ` (?E\<inverse>) = snd ` ?E" "snd ` (?E\<inverse>) = fst ` ?E"
    by force+
  then show ?thesis
    using assms(2) unfolding joinable_def e by (simp add: Int_commute)
qed

lemma candidate_keys_sets:
  assumes sym: "symmetric_graph g" and d: "\<forall>f \<in> set fs. distinct (face_list f)"
    and ds: "distinct (map (\<lambda>f. set (face_list f)) fs)"
  shows "sortedHex ` set (candidateHexahedra fs g) =
           {sorted_list_of_set (S1 \<union> S2) | S1 S2.
              S1 \<in> (\<lambda>f. set (face_list f)) ` set fs \<and> S2 \<in> (\<lambda>f. set (face_list f)) ` set fs \<and>
              S1 \<noteq> S2 \<and> joinable g S1 S2}"
    (is "_ = ?R")
proof -
  let ?v = "\<lambda>f. set (face_list f)"
  let ?vs = "map ?v fs"
  have pv: "set (pairs_of ?vs) = map_prod ?v ?v ` set (pairs_of fs)"
    by (simp add: pairs_of_map)
  note pd = pairs_of_distinct[OF ds]
  have "{sorted_list_of_set (?v f1 \<union> ?v f2) | f1 f2.
              (f1, f2) \<in> set (pairs_of fs) \<and> joinable g (?v f1) (?v f2)} = ?R" (is "?M = _")
  proof (rule set_eqI)
    fix k
    show "k \<in> ?M \<longleftrightarrow> k \<in> ?R"
    proof
      assume "k \<in> ?M"
      then obtain f1 f2 where p: "(f1, f2) \<in> set (pairs_of fs)" and j: "joinable g (?v f1) (?v f2)"
        and k: "k = sorted_list_of_set (?v f1 \<union> ?v f2)" by blast
      have "(?v f1, ?v f2) \<in> set (pairs_of ?vs)"
        unfolding pv using p by force
      then have "?v f1 \<in> set ?vs \<and> ?v f2 \<in> set ?vs \<and> ?v f1 \<noteq> ?v f2"
        using pd[of "?v f1" "?v f2"] by blast
      then have "?v f1 \<in> ?v ` set fs \<and> ?v f2 \<in> ?v ` set fs \<and> ?v f1 \<noteq> ?v f2"
        by (simp only: set_map simp_thms)
      then show "k \<in> ?R" using j k by blast
    next
      assume "k \<in> ?R"
      then obtain S1 S2 where s: "S1 \<in> ?v ` set fs" "S2 \<in> ?v ` set fs" "S1 \<noteq> S2"
        and j: "joinable g S1 S2" and k: "k = sorted_list_of_set (S1 \<union> S2)" by blast
      have "S1 \<in> set ?vs \<and> S2 \<in> set ?vs \<and> S1 \<noteq> S2"
        using s by (simp only: set_map simp_thms)
      then have "(S1, S2) \<in> set (pairs_of ?vs) \<or> (S2, S1) \<in> set (pairs_of ?vs)"
        using pd[of S1 S2] by blast
      then show "k \<in> ?M"
      proof
        assume "(S1, S2) \<in> set (pairs_of ?vs)"
        then obtain f1 f2 where "(f1, f2) \<in> set (pairs_of fs)" "S1 = ?v f1" "S2 = ?v f2"
          unfolding pv by auto
        then show ?thesis using j k by blast
      next
        assume "(S2, S1) \<in> set (pairs_of ?vs)"
        then obtain f1 f2 where "(f1, f2) \<in> set (pairs_of fs)" "S2 = ?v f1" "S1 = ?v f2"
          unfolding pv by auto
        moreover have "joinable g S2 S1" by (rule joinable_sym[OF sym j])
        moreover have "k = sorted_list_of_set (S2 \<union> S1)" using k by (simp add: Un_commute)
        ultimately show ?thesis by blast
      qed
    qed
  qed
  then show ?thesis using candidate_keys[OF d, of g] by simp
qed

lemma length_buildHexahedra:
  "length (buildHexahedra fs g) = card (sortedHex ` set (candidateHexahedra fs g))"
  by (simp only: buildHexahedra_first_occurrences length_first_occurrences)

lemma buildHexahedra_any_faces:
  assumes sym: "symmetric_graph g"
    and d: "\<forall>f \<in> set fs. distinct (face_list f)" "\<forall>f \<in> set fs'. distinct (face_list f)"
    and ds: "distinct (map (\<lambda>f. set (face_list f)) fs)" "distinct (map (\<lambda>f. set (face_list f)) fs')"
    and v: "(\<lambda>f. set (face_list f)) ` set fs' = (\<lambda>f. set (face_list f)) ` set fs"
  shows "length (buildHexahedra fs' g) = length (buildHexahedra fs g)"
  unfolding length_buildHexahedra candidate_keys_sets[OF sym d(1) ds(1)]
    candidate_keys_sets[OF sym d(2) ds(2)] v ..


lemma distinct_adjacency_build: "distinct_adjacency (buildAdjacencyGraph points)"
  unfolding distinct_adjacency_def
  by (auto simp: buildAdjacencyGraph_lookup distinct_neighbors_of split: if_splits)

lemma vertex_sets_of_keys:
  "(\<lambda>f. set (face_list f)) ` set fs = set ` sortedFace ` set fs"
proof -
  have "(\<lambda>f. set (face_list f)) = (\<lambda>f. set (sortedFace f))"
    by (intro ext) (simp add: sortedFace_face_list)
  then show ?thesis by (simp only: image_image)
qed

section \<open>The reference layout\<close>

lemma distances_from_sqrt:
  "distances_from points i = map (\<lambda>p. (sqrt (fst p), snd p)) (sq_distances_from points i)"
  by (simp add: distances_from_def sq_distances_from_def distanceToPoint_def)

lemma sort_sqrt:
  "sort (map (\<lambda>p. (sqrt (fst p), snd p :: int)) xs) = map (\<lambda>p. (sqrt (fst p), snd p)) (sort xs)"
proof (rule properties_for_sort)
  show "mset (map (\<lambda>p. (sqrt (fst p), snd p)) (sort xs)) = mset (map (\<lambda>p. (sqrt (fst p), snd p)) xs)"
    by simp
  have "sorted (sort xs)" by simp
  then show "sorted (map (\<lambda>p. (sqrt (fst p), snd p)) (sort xs))"
    unfolding sorted_map by (rule sorted_wrt_mono_rel[rotated]) auto
qed

lemma neighbors_of_sq:
  "neighbors_of points i =
     map snd (take (nat (required_neighbors (points ! i))) (sort (sq_distances_from points i)))"
  by (simp add: neighbors_of_take distances_from_sqrt sort_sqrt take_map comp_def)

lemma reference_neighbors:
  "map (neighbors_of reference_points) [0..<16] =
    [[3, 4, 1], [2, 5, 0], [1, 3, 6], [2, 7, 0], [5, 7, 8, 0], [1, 4, 6, 9],
     [2, 5, 7, 10], [3, 4, 6, 11], [4, 9, 11, 12], [5, 8, 10, 13],
     [6, 9, 11, 14], [7, 8, 10, 15], [8, 13, 15], [9, 12, 14], [10, 13, 15],
     [11, 12, 14]]"
  by (simp add: neighbors_of_sq sq_distances_from_def reference_points_def mesh_point_def upt_rec)

lemma length_reference_points: "length reference_points = 16"
  by (simp add: reference_points_def)

lemma reference_graph_eq: "buildAdjacencyGraph reference_points = reference_graph"
proof
  fix k :: int
  consider "k < 0 \<or> 16 \<le> k" | "k \<in> set (map int [0..<16])"
    by (simp add: int_image_upt del: upt.simps) linarith
  then show "buildAdjacencyGraph reference_points k = reference_graph k"
  proof cases
    case 1
    then show ?thesis
      by (auto simp: buildAdjacencyGraph_lookup length_reference_points reference_graph_def)
  next
    case 2
    then obtain i where i: "i < 16" "k = int i" by auto
    have "\<forall>i < 16. Some (map (neighbors_of reference_points) [0..<16] ! i) = reference_graph (int i)"
      unfolding reference_neighbors by (simp add: reference_graph_def All_less_Suc numeral_eq_Suc)
    then have "Some (neighbors_of reference_points i) = reference_graph (int i)" using i(1) by simp
    then show ?thesis using i by (simp add: buildAdjacencyGraph_lookup length_reference_points)
  qed
qed

lemmas face_cands = faceCandidates_def candidates_of_point_def candidates_of_pair_def

lemma reference_candidates_eq: "faceCandidates reference_points reference_graph = reference_candidates"
  unfolding reference_candidates_def
  by (simp add: face_cands length_reference_points reference_graph_def upt_rec)

lemma reference_passing_eq: "filter (passes_checks reference_points) reference_candidates = reference_passing"
  unfolding reference_candidates_def reference_passing_def
  by (simp add: passes_checks_tuple edge_sq_def position_def reference_points_def mesh_point_def)

lemma reference_inside: "\<not> (\<exists>c \<in> set reference_candidates. reads_outside reference_points c)"
  unfolding reference_candidates_def
  by (simp add: reads_outside_tuple length_reference_points)

lemma reference_faces_eq: "findValidFaces reference_points reference_graph = Some reference_faces"
proof -
  have "first_occurrences sortedFace reference_passing = reference_faces"
    unfolding reference_passing_def reference_faces_def by (simp add: sortedFace_tuple)
  then show ?thesis
    using reference_inside by (simp only: findValidFaces_eq reference_candidates_eq reference_passing_eq if_False)
qed

lemma reference_hexahedra:
  "buildHexahedra reference_faces reference_graph =
     [(0, 3, 2, 1, 4, 7, 6, 5), (4, 5, 6, 7, 8, 9, 10, 11), (8, 9, 10, 11, 12, 13, 14, 15)]"
proof -
  have "candidateHexahedra reference_faces reference_graph =
    [(0, 3, 2, 1, 4, 7, 6, 5), (0, 4, 5, 1, 3, 7, 6, 2),
     (4, 5, 6, 7, 8, 9, 10, 11), (4, 5, 9, 8, 7, 6, 10, 11),
     (4, 7, 11, 8, 5, 6, 10, 9), (8, 9, 10, 11, 12, 13, 14, 15),
     (8, 9, 13, 12, 11, 10, 14, 15), (8, 11, 15, 12, 9, 10, 14, 13)]"
    unfolding reference_faces_def by (simp add: hex_eval reference_graph_def)
  then show ?thesis
    by (simp add: buildHexahedra_first_occurrences sortedHex_def)
qed

lemma reference_run:
  "run_steps initial_window =
     Some \<lparr>m_points = reference_points, m_adjGraph = reference_graph, m_faces = reference_faces,
           m_hexahedra = [(0, 3, 2, 1, 4, 7, 6, 5), (4, 5, 6, 7, 8, 9, 10, 11),
                          (8, 9, 10, 11, 12, 13, 14, 15)]\<rparr>"
  by (simp add: run_steps_def initial_window_def onStep1_BuildGraph_def onStep2_FindFaces_def
      onStep3_BuildHexahedra_def reference_graph_eq reference_faces_eq reference_hexahedra)

lemma symmetric_reference_graph: "symmetric_graph reference_graph"
  unfolding symmetric_graph_def graph_edge_def reference_graph_def
  by (auto split: if_splits)

text \<open>
  The counts of the reference layout do not depend on the order in which the adjacency sets
  are iterated.
\<close>

lemma reference_counts_any_order:
  assumes "same_adjacency (buildAdjacencyGraph reference_points) adjGraph"
    and "distinct_adjacency adjGraph"
  shows "\<exists>faces. findValidFaces reference_points adjGraph = Some faces \<and> length faces = 15 \<and>
           length (buildHexahedra faces adjGraph) = 3"
proof -
  have s: "same_adjacency reference_graph adjGraph"
    using assms(1) by (simp only: reference_graph_eq)
  have d0: "distinct_adjacency reference_graph"
    using distinct_adjacency_build[of reference_points] by (simp only: reference_graph_eq)
  from findValidFaces_any_order[OF s d0 assms(2) reference_faces_eq]
  obtain faces where f: "findValidFaces reference_points adjGraph = Some faces"
    and l: "length faces = length reference_faces"
    and k: "sortedFace ` set faces = sortedFace ` set reference_faces"
    by blast
  have l15: "length faces = 15" using l by (simp add: reference_faces_def)
  have v: "(\<lambda>f. set (face_list f)) ` set faces = (\<lambda>f. set (face_list f)) ` set reference_faces"
    by (simp only: vertex_sets_of_keys k)
  have "length (buildHexahedra faces adjGraph) = length (buildHexahedra faces reference_graph)"
    by (simp only: buildHexahedra_same[OF s])
  also have "\<dots> = length (buildHexahedra reference_faces reference_graph)"
  proof (rule buildHexahedra_any_faces[OF symmetric_reference_graph _ _ _ _ v])
    show "\<forall>f \<in> set reference_faces. distinct (face_list f)"
      using faces_distinct_vertices[OF reference_faces_eq] by blast
    show "\<forall>f \<in> set faces. distinct (face_list f)"
      using faces_distinct_vertices[OF f] by blast
    show "distinct (map (\<lambda>f. set (face_list f)) reference_faces)"
      by (rule faces_distinct_sets[OF reference_faces_eq])
    show "distinct (map (\<lambda>f. set (face_list f)) faces)"
      by (rule faces_distinct_sets[OF f])
  qed
  also have "\<dots> = 3" by (simp add: reference_hexahedra)
  finally show ?thesis using f l15 by blast
qed

text \<open>
  C3, as the specification states it, fails: on the reference layout the three steps do not
  yield 2 hexahedra.
\<close>

theorem reference_layout_not_two_hexahedra:
  "map_option (length \<circ> m_hexahedra) (run_steps initial_window) \<noteq> Some 2"
  by (simp add: reference_run)

text \<open>
  C3, amended: the reference layout has four layers of four points, that is three stacked
  cells, and point 0 lies at x = -0.2. Running buildAdjacencyGraph, findValidFaces and
  buildHexahedra on it yields exactly 3 hexahedra and at least 11 valid quad faces (exactly 15:
  the 16 quads of the three cells without the quad 0-3-7-4, which is not planar).
\<close>

theorem reference_layout_three_hexahedra:
  "map_option (length \<circ> m_hexahedra) (run_steps initial_window) = Some 3 \<and>
   map_option (length \<circ> m_faces) (run_steps initial_window) = Some 15"
  by (simp add: reference_run reference_faces_def)

section \<open>Properties of findValidFaces in binary32\<close>

subsection \<open>Rounding\<close>

lemma floorlog2_bounds_real:
  assumes "0 < n"
  shows "(2::real) ^ (floorlog 2 n - 1) \<le> real n" and "real n + 1 \<le> 2 ^ floorlog 2 n"
    and "0 < floorlog 2 n"
proof -
  have b: "2 ^ (floorlog 2 n - 1) \<le> n" "n < 2 ^ floorlog 2 n"
    using floorlog_bounds[OF assms, of 2] by simp_all
  have "real (2 ^ (floorlog 2 n - 1)) \<le> real n" using b(1) by (simp only: of_nat_le_iff)
  then show "(2::real) ^ (floorlog 2 n - 1) \<le> real n" by simp
  have "Suc n \<le> 2 ^ floorlog 2 n" using b(2) by simp
  then have "real (Suc n) \<le> real (2 ^ floorlog 2 n)" by (simp only: of_nat_le_iff)
  then show "real n + 1 \<le> 2 ^ floorlog 2 n" by simp
  show "0 < floorlog 2 n" using assms by (simp add: floorlog_def)
qed

lemma ilog2_bounds:
  assumes "0 < y"
  shows "2 powi (ilog2 y) \<le> y" and "y < 2 powi (ilog2 y + 1)"
proof -
  have "2 powi (ilog2 y) \<le> y \<and> y < 2 powi (ilog2 y + 1)"
  proof (cases "1 \<le> y")
    case True
    let ?n = "nat \<lfloor>y\<rfloor>"
    have n: "0 < ?n" using True by simp
    note b = floorlog2_bounds_real[OF n]
    have e: "ilog2 y = int (floorlog 2 ?n - 1)" using True b(3) by (simp add: ilog2_def)
    have "real ?n = of_int \<lfloor>y\<rfloor>" using True by simp
    then have ny: "real ?n \<le> y" "y < real ?n + 1" using floor_correct[of y] by linarith+
    have p1: "(2::real) powi (ilog2 y) = 2 ^ (floorlog 2 ?n - 1)" by (simp only: e power_int_of_nat)
    have "ilog2 y + 1 = int (floorlog 2 ?n)" using e b(3) by simp
    then have p2: "(2::real) powi (ilog2 y + 1) = 2 ^ floorlog 2 ?n" by (simp only: power_int_of_nat)
    show ?thesis unfolding p1 p2 using b(1,2) ny by linarith
  next
    case False
    let ?m = "\<lceil>1 / y\<rceil>"
    let ?n = "nat (?m - 1)"
    have y1: "1 < 1 / y" using False assms by simp
    then have m2: "2 \<le> ?m" by (simp add: le_ceiling_iff)
    then have n: "0 < ?n" by simp
    note b = floorlog2_bounds_real[OF n]
    have e: "ilog2 y = - int (floorlog 2 ?n)" using False by (simp add: ilog2_def)
    have "0 \<le> ?m - 1" using m2 by linarith
    then have "real ?n = of_int (?m - 1)" by (rule of_nat_nat)
    then have rn: "real ?n = of_int ?m - 1" by simp
    have c: "of_int ?m - 1 < 1 / y" "1 / y \<le> of_int ?m"
      using ceiling_correct[of "1 / y"] by linarith+
    have p1: "(2::real) powi (ilog2 y) = 1 / 2 ^ floorlog 2 ?n"
      by (simp only: e power_int_minus power_int_of_nat inverse_eq_divide)
    have "ilog2 y + 1 = - int (floorlog 2 ?n - 1)" using e b(3) by simp
    then have p2: "(2::real) powi (ilog2 y + 1) = 1 / 2 ^ (floorlog 2 ?n - 1)"
      by (simp only: power_int_minus power_int_of_nat inverse_eq_divide)
    have "1 / y \<le> 2 ^ floorlog 2 ?n" using b(2) rn c(2) by linarith
    then have 1: "1 / 2 ^ floorlog 2 ?n \<le> y" using assms by (simp add: field_simps)
    have "2 ^ (floorlog 2 ?n - 1) < 1 / y" using b(1) rn c(1) by linarith
    then have "y < 1 / 2 ^ (floorlog 2 ?n - 1)" using assms by (simp add: field_simps)
    then show ?thesis unfolding p1 p2 using 1 by simp
  qed
  then show "2 powi (ilog2 y) \<le> y" and "y < 2 powi (ilog2 y + 1)" by simp_all
qed

lemma ilog2_unique:
  assumes "0 < y" "2 powi k \<le> y" "y < 2 powi (k + 1)"
  shows "ilog2 y = k"
proof -
  note b = ilog2_bounds[OF assms(1)]
  have "\<not> ilog2 y + 1 \<le> k"
  proof
    assume "ilog2 y + 1 \<le> k"
    then have "(2::real) powi (ilog2 y + 1) \<le> 2 powi k" by (intro power_int_increasing) simp_all
    then show False using b(2) assms(2) by linarith
  qed
  moreover have "\<not> k + 1 \<le> ilog2 y"
  proof
    assume "k + 1 \<le> ilog2 y"
    then have "(2::real) powi (k + 1) \<le> 2 powi (ilog2 y)" by (intro power_int_increasing) simp_all
    then show False using b(1) assms(3) by linarith
  qed
  ultimately show ?thesis by linarith
qed

lemma ilog2_mono:
  assumes "0 < x" "x \<le> y"
  shows "ilog2 x \<le> ilog2 y"
proof (rule ccontr)
  assume "\<not> ilog2 x \<le> ilog2 y"
  then have "ilog2 y + 1 \<le> ilog2 x" by simp
  then have "(2::real) powi (ilog2 y + 1) \<le> 2 powi (ilog2 x)" by (intro power_int_increasing) simp_all
  then show False
    using ilog2_bounds(1)[OF assms(1)] ilog2_bounds(2)[of y] assms by linarith
qed

lemma round_half_even_floor: "round_half_even q = \<lfloor>q\<rfloor> \<or> round_half_even q = \<lfloor>q\<rfloor> + 1"
  unfolding round_half_even_def by presburger

lemma round_half_even_ge: "of_int a \<le> q \<Longrightarrow> a \<le> round_half_even q"
proof -
  assume "of_int a \<le> q"
  then have "a \<le> \<lfloor>q\<rfloor>" by (simp add: le_floor_iff)
  then show ?thesis using round_half_even_floor[of q] by linarith
qed

lemma round_half_even_le: "q \<le> of_int b \<Longrightarrow> round_half_even q \<le> b"
proof -
  assume q: "q \<le> of_int b"
  have f: "\<lfloor>q\<rfloor> \<le> b" using q by (simp add: floor_le_iff)
  show ?thesis
  proof (cases "\<lfloor>q\<rfloor> = b")
    case True
    then have "q = of_int b" using q of_int_floor_le[of q] by linarith
    then show ?thesis by (simp add: round_half_even_def)
  next
    case False
    then have "\<lfloor>q\<rfloor> + 1 \<le> b" using f by simp
    then show ?thesis unfolding round_half_even_def by auto
  qed
qed



lemma ulp_at_pos: "0 < ulp_at y"
  by (simp add: ulp_at_def)

lemma on_grid_iff: "on_grid v \<longleftrightarrow> 0 < v \<and> (\<exists>k::int. v = of_int k * ulp_at v)"
proof -
  have u: "ulp_at v \<noteq> 0" using ulp_at_pos[of v] by simp
  have "of_int \<lfloor>v / ulp_at v\<rfloor> = v / ulp_at v \<longleftrightarrow> (\<exists>k::int. v = of_int k * ulp_at v)"
  proof
    assume a: "of_int \<lfloor>v / ulp_at v\<rfloor> = v / ulp_at v"
    have "v = v / ulp_at v * ulp_at v" using u by simp
    then have "v = of_int \<lfloor>v / ulp_at v\<rfloor> * ulp_at v" unfolding a .
    then show "\<exists>k::int. v = of_int k * ulp_at v" by blast
  next
    assume "\<exists>k::int. v = of_int k * ulp_at v"
    then obtain k :: int where "v = of_int k * ulp_at v" by blast
    then have "v / ulp_at v = of_int k" using u by (simp add: field_simps)
    then show "of_int \<lfloor>v / ulp_at v\<rfloor> = v / ulp_at v" by simp
  qed
  then show ?thesis by (simp only: on_grid_def)
qed

lemma nonneg32_iff: "nonneg32 x \<longleftrightarrow> x = NaN \<or> x = PInf \<or> (\<exists>v. x = Finite v \<and> 0 \<le> v)"
  by (cases x) (simp_all add: nonneg32_def)

lemma gridded_iff:
  "gridded x \<longleftrightarrow> x = NaN \<or> x = PInf \<or> x = Finite 0 \<or> (\<exists>v. x = Finite v \<and> on_grid v)"
  by (cases x) (auto simp: gridded_def)

lemma powi_split: "(2::real) powi e = 2 ^ 23 * 2 powi (e - 23)"
proof -
  have "(2::real) powi (23 + (e - 23)) = 2 powi 23 * 2 powi (e - 23)"
    by (rule power_int_add) simp
  then show ?thesis by simp
qed

lemma powi_succ: "(2::real) powi (e + 1) = 2 * 2 powi e"
  by (simp add: power_int_add)


lemma round_pos_rounded:
  "round_pos y = (if 2 powi 128 \<le> rounded y then PInf else Finite (rounded y))"
  by (simp add: round_pos_def rounded_def)

lemma rounded_nonneg: "0 \<le> y \<Longrightarrow> 0 \<le> rounded y"
proof -
  assume "0 \<le> y"
  then have "of_int 0 \<le> y / ulp_at y" using ulp_at_pos[of y] by simp
  then have "0 \<le> round_half_even (y / ulp_at y)" by (rule round_half_even_ge)
  then show ?thesis using ulp_at_pos[of y] by (simp add: rounded_def)
qed

lemma rounded_normal_bounds:
  assumes y: "0 < y" and n: "- 126 \<le> ilog2 y"
  shows "2 powi (ilog2 y) \<le> rounded y" and "rounded y \<le> 2 powi (ilog2 y + 1)"
proof -
  let ?u = "ulp_at y"
  have u: "?u = 2 powi (ilog2 y - 23)" using n by (simp add: ulp_at_def max_def)
  have p: "(2::real) powi (ilog2 y) = 2 ^ 23 * ?u" unfolding u by (rule powi_split)
  have p': "(2::real) powi (ilog2 y + 1) = 2 ^ 24 * ?u" unfolding powi_succ p by simp
  note b = ilog2_bounds[OF y]
  have "of_int (2 ^ 23) \<le> y / ?u" using b(1) p ulp_at_pos[of y] by (simp add: field_simps)
  then have "2 ^ 23 \<le> round_half_even (y / ?u)" by (rule round_half_even_ge)
  then have "(of_int (2 ^ 23) :: real) \<le> of_int (round_half_even (y / ?u))"
    by (simp only: of_int_le_iff)
  then have "(2::real) ^ 23 \<le> of_int (round_half_even (y / ?u))" by simp
  then show "2 powi (ilog2 y) \<le> rounded y"
    unfolding p rounded_def using ulp_at_pos[of y] by (simp add: mult_right_mono)
  have "y / ?u \<le> of_int (2 ^ 24)" using b(2) p' ulp_at_pos[of y] by (simp add: field_simps)
  then have "round_half_even (y / ?u) \<le> 2 ^ 24" by (rule round_half_even_le)
  then have "(of_int (round_half_even (y / ?u)) :: real) \<le> of_int (2 ^ 24)"
    by (simp only: of_int_le_iff)
  then have "of_int (round_half_even (y / ?u)) \<le> (2::real) ^ 24" by simp
  then show "rounded y \<le> 2 powi (ilog2 y + 1)"
    unfolding p' rounded_def using ulp_at_pos[of y] by (simp add: mult_right_mono)
qed

lemma rounded_subnormal_bound:
  assumes y: "0 < y" and n: "ilog2 y < - 126"
  shows "rounded y \<le> 2 powi (- 126)"
proof -
  let ?u = "ulp_at y"
  have u: "?u = 2 powi (- 126 - 23)" using n by (simp add: ulp_at_def max_def)
  have p: "(2::real) powi (- 126) = 2 ^ 23 * ?u" unfolding u by (rule powi_split)
  have "ilog2 y + 1 \<le> - 126" using n by simp
  then have "(2::real) powi (ilog2 y + 1) \<le> 2 powi (- 126)" by (intro power_int_increasing) simp_all
  then have "y \<le> 2 powi (- 126)" using ilog2_bounds(2)[OF y] by linarith
  then have "y / ?u \<le> of_int (2 ^ 23)" using p ulp_at_pos[of y] by (simp add: field_simps)
  then have "round_half_even (y / ?u) \<le> 2 ^ 23" by (rule round_half_even_le)
  then have "(of_int (round_half_even (y / ?u)) :: real) \<le> of_int (2 ^ 23)"
    by (simp only: of_int_le_iff)
  then have "of_int (round_half_even (y / ?u)) \<le> (2::real) ^ 23" by simp
  then show ?thesis
    unfolding p rounded_def using ulp_at_pos[of y] by (simp add: mult_right_mono)
qed

lemma ulp_at_below: "0 < v \<Longrightarrow> v \<le> 2 powi (- 126) \<Longrightarrow> ulp_at v = 2 powi (- 126 - 23)"
proof -
  assume v: "0 < v" "v \<le> 2 powi (- 126)"
  have "\<not> - 126 + 1 \<le> ilog2 v"
  proof
    assume "- 126 + 1 \<le> ilog2 v"
    then have "(2::real) powi (- 126 + 1) \<le> 2 powi (ilog2 v)" by (intro power_int_increasing) simp_all
    moreover have "(2::real) powi (- 126) < 2 powi (- 126 + 1)"
      by (intro power_int_strict_increasing) simp_all
    ultimately show False using ilog2_bounds(1)[OF v(1)] v(2) by linarith
  qed
  then show ?thesis by (simp add: ulp_at_def max_def)
qed

lemma rounded_on_grid:
  assumes y: "0 < y" and v: "0 < rounded y"
  shows "on_grid (rounded y)"
proof (cases "- 126 \<le> ilog2 y")
  case True
  let ?u = "ulp_at y"
  have u: "?u = 2 powi (ilog2 y - 23)" using True by (simp add: ulp_at_def max_def)
  note b = rounded_normal_bounds[OF y True]
  show ?thesis
  proof (cases "rounded y < 2 powi (ilog2 y + 1)")
    case True
    then have "ilog2 (rounded y) = ilog2 y" using b(1) v by (intro ilog2_unique)
    then have "ulp_at (rounded y) = ?u" using \<open>- 126 \<le> ilog2 y\<close> by (simp add: ulp_at_def)
    then have "rounded y = of_int (round_half_even (y / ?u)) * ulp_at (rounded y)"
      by (simp add: rounded_def)
    then show ?thesis using v unfolding on_grid_iff by blast
  next
    case False
    then have r: "rounded y = 2 powi (ilog2 y + 1)" using b(2) by simp
    have "(2::real) powi (ilog2 y + 1) < 2 powi (ilog2 y + 1 + 1)"
      by (intro power_int_strict_increasing) simp_all
    then have "ilog2 (rounded y) = ilog2 y + 1" unfolding r by (intro ilog2_unique) simp_all
    then have "ulp_at (rounded y) = 2 powi (ilog2 y + 1 - 23)"
      using \<open>- 126 \<le> ilog2 y\<close> by (simp add: ulp_at_def max_def)
    then have "rounded y = of_int (2 ^ 23) * ulp_at (rounded y)"
      using r powi_split[of "ilog2 y + 1"] by simp
    then show ?thesis using v unfolding on_grid_iff by blast
  qed
next
  case False
  then have n: "ilog2 y < - 126" by simp
  have u: "ulp_at y = 2 powi (- 126 - 23)" using n by (simp add: ulp_at_def max_def)
  have "ulp_at (rounded y) = 2 powi (- 126 - 23)"
    by (rule ulp_at_below[OF v rounded_subnormal_bound[OF y n]])
  then have "ulp_at (rounded y) = ulp_at y" by (simp only: u)
  then have "rounded y = of_int (round_half_even (y / ulp_at y)) * ulp_at (rounded y)"
    by (simp only: rounded_def)
  then show ?thesis using v unfolding on_grid_iff by blast
qed

text \<open>
  Rounding is monotone at the binary32 numbers: a positive binary32 number that is at most
  \<open>y\<close> is at most the rounded \<open>y\<close>.
\<close>

lemma rounded_above_grid:
  assumes g: "on_grid v" and le: "v \<le> y"
  shows "v \<le> rounded y"
proof -
  from g obtain k :: int where v: "0 < v" and k: "v = of_int k * ulp_at v"
    unfolding on_grid_iff by blast
  have y: "0 < y" using v le by linarith
  let ?Ev = "max (ilog2 v) (- 126)" and ?Ey = "max (ilog2 y) (- 126)"
  have m: "?Ev \<le> ?Ey" using ilog2_mono[OF v le] by simp
  show ?thesis
  proof (cases "?Ev = ?Ey")
    case True
    then have u: "ulp_at y = ulp_at v" by (simp add: ulp_at_def)
    have "of_int k \<le> y / ulp_at v" using k le ulp_at_pos[of v] by (simp add: field_simps)
    then have "k \<le> round_half_even (y / ulp_at v)" by (rule round_half_even_ge)
    then have "of_int k \<le> (of_int (round_half_even (y / ulp_at v)) :: real)"
      by (simp only: of_int_le_iff)
    then have "of_int k * ulp_at v \<le> of_int (round_half_even (y / ulp_at v)) * ulp_at v"
      using ulp_at_pos[of v] by (simp add: mult_right_mono)
    then show ?thesis using k by (simp add: rounded_def u)
  next
    case False
    then have lt: "?Ev < ?Ey" using m by linarith
    have n: "- 126 \<le> ilog2 y" using lt by linarith
    have "ilog2 v + 1 \<le> ilog2 y" using lt by linarith
    then have "(2::real) powi (ilog2 v + 1) \<le> 2 powi (ilog2 y)" by (intro power_int_increasing) simp_all
    then show ?thesis
      using ilog2_bounds(2)[OF v] rounded_normal_bounds(1)[OF y n] by linarith
  qed
qed

subsection \<open>Evaluating the binary32 operations\<close>

lemma floorlog2_numeral [simp]:
  "floorlog 2 (numeral (Num.Bit0 n)) = floorlog 2 (numeral n) + 1"
  "floorlog 2 (numeral (Num.Bit1 n)) = floorlog 2 (numeral n) + 1"
  "floorlog 2 1 = 1" "floorlog 2 0 = 0" "floorlog 2 (Suc 0) = 1"
proof -
  have a: "numeral (Num.Bit0 n) div (2::nat) = numeral n" by simp
  have b: "numeral (Num.Bit1 n) div (2::nat) = numeral n" by simp
  show "floorlog 2 (numeral (Num.Bit0 n)) = floorlog 2 (numeral n) + 1"
    by (subst compute_floorlog) (simp only: a, simp)
  show "floorlog 2 (numeral (Num.Bit1 n)) = floorlog 2 (numeral n) + 1"
    by (subst compute_floorlog) (simp only: b, simp)
  show "floorlog 2 1 = 1" by (simp add: compute_floorlog)
  show "floorlog 2 0 = 0" by (simp add: compute_floorlog)
  show "floorlog 2 (Suc 0) = 1" by (simp add: compute_floorlog)
qed

lemmas f32_eval = round32_def round_pos_def ulp_at_def ilog2_def round_half_even_def

lemma passes_checks32_tuple:
  "passes_checks32 points (p0, p1, p2, p3) \<longleftrightarrow>
     ((0 \<le> p0 \<and> p0 < int (length points)) \<and> (0 \<le> p1 \<and> p1 < int (length points)) \<and>
      (0 \<le> p2 \<and> p2 < int (length points)) \<and> (0 \<le> p3 \<and> p3 < int (length points))) \<and>
     fless (fabs (volume32 points (p0, p1, p2, p3))) tolerance32 \<and>
     fless (fmul (max_edge_sq32 points (p0, p1, p2, p3)) factor32) (edge_sq32 points p0 p2) \<and>
     fless (fmul (max_edge_sq32 points (p0, p1, p2, p3)) factor32) (edge_sq32 points p1 p3)"
  by (simp only: passes_checks32_def prod.case list.pred_inject simp_thms)

lemma volume32_tuple:
  "volume32 points (p0, p1, p2, p3) =
        dotProduct32 (vsub32 (position32 points p1) (position32 points p0))
          (crossProduct32 (vsub32 (position32 points p2) (position32 points p0))
                          (vsub32 (position32 points p3) (position32 points p0)))"
  by (simp only: volume32_def prod.case)

lemma max_edge_sq32_tuple:
  "max_edge_sq32 points (p0, p1, p2, p3) =
        std_max (std_max (std_max (edge_sq32 points p0 p1) (edge_sq32 points p1 p2))
                   (edge_sq32 points p2 p3)) (edge_sq32 points p3 p0)"
  by (simp only: max_edge_sq32_def prod.case)

lemma tolerance32_value: "tolerance32 = Finite (8589935 / 8589934592)"
  by (simp add: tolerance32_def f32_eval)

lemma factor32_value: "factor32 = Finite (4236247 / 4194304)"
  by (simp add: factor32_def f32_eval)

lemmas f32_ops = fsub_def std_max_def tolerance32_value factor32_value f32_eval


subsection \<open>The binary32 search as a filter over the candidates\<close>

lemma point_at32_inside:
  "0 \<le> k \<Longrightarrow> k < int (length points) \<Longrightarrow> point_at32 points k = Some (points ! nat k)"
  by (simp add: point_at32_def)

lemma check_face32_inside:
  assumes "0 \<le> p0" "0 \<le> p1" "0 \<le> p2" "0 \<le> p3" "p0 < int (length points)"
    "p1 < int (length points)" "p2 < int (length points)" "p3 < int (length points)"
  shows "check_face32 points (p0, p1, p2, p3) (vf, uf)
           = Some (keep_new sortedFace (passes_checks32 points) (p0, p1, p2, p3) (vf, uf))"
proof -
  have nh: "\<not> (p0 \<ge> int (length points) \<or> p1 \<ge> int (length points) \<or>
           p2 \<ge> int (length points) \<or> p3 \<ge> int (length points))"
    using assms by simp
  have rg: "list_all (\<lambda>k. 0 \<le> k \<and> k < int (length points)) [p0, p1, p2, p3]"
    using assms by simp
  note pa = point_at32_inside[OF assms(1,5)] point_at32_inside[OF assms(2,6)]
    point_at32_inside[OF assms(3,7)] point_at32_inside[OF assms(4,8)]
  show ?thesis
    by (simp only: check_face32_def arePointsCoplanar32_def prod.case nh if_False pa
        Option.bind.bind_lunit Let_def keep_new_def passes_checks32_def rg simp_thms position32_def
        volume32_def max_edge_sq32_def edge_sq32_def if_chain)
qed

lemma passes_checks32_range:
  assumes "passes_checks32 points (p0, p1, p2, p3)"
  shows "0 \<le> p0 \<and> p0 < int (length points)" and "0 \<le> p1 \<and> p1 < int (length points)"
    and "0 \<le> p2 \<and> p2 < int (length points)" and "0 \<le> p3 \<and> p3 < int (length points)"
  using assms by (simp_all only: passes_checks32_tuple)

lemma check_face32_eq:
  "check_face32 points face st =
     (if reads_outside (map exact_point points) face then None
      else Some (keep_new sortedFace (passes_checks32 points) face st))"
proof -
  obtain p0 p1 p2 p3 where f: "face = (p0, p1, p2, p3)" by (cases face) auto
  obtain vf uf where st: "st = (vf, uf)" by (cases st)
  have len: "length (map exact_point points) = length points" by simp
  consider (high) "p0 \<ge> int (length points) \<or> p1 \<ge> int (length points) \<or>
           p2 \<ge> int (length points) \<or> p3 \<ge> int (length points)"
    | (neg) "p0 < int (length points)" "p1 < int (length points)" "p2 < int (length points)"
        "p3 < int (length points)" "p0 < 0 \<or> p1 < 0 \<or> p2 < 0 \<or> p3 < 0"
    | (ok) "0 \<le> p0" "0 \<le> p1" "0 \<le> p2" "0 \<le> p3" "p0 < int (length points)"
        "p1 < int (length points)" "p2 < int (length points)" "p3 < int (length points)"
    by linarith
  then show ?thesis
  proof cases
    case high
    then have "arePointsCoplanar32 points (p0, p1, p2, p3) tolerance32 = Some False"
      by (simp add: arePointsCoplanar32_def)
    moreover have "\<not> reads_outside (map exact_point points) (p0, p1, p2, p3)"
      using high by (simp only: reads_outside_tuple len) linarith
    moreover have "\<not> passes_checks32 points (p0, p1, p2, p3)"
      using high passes_checks32_range[of points p0 p1 p2 p3] by linarith
    ultimately show ?thesis by (simp add: f st check_face32_def keep_new_def)
  next
    case neg
    then have "arePointsCoplanar32 points (p0, p1, p2, p3) tolerance32 = None"
      by (auto simp: arePointsCoplanar32_def point_at32_def)
    moreover have "reads_outside (map exact_point points) (p0, p1, p2, p3)"
      using neg by (simp only: reads_outside_tuple len simp_thms)
    ultimately show ?thesis by (simp add: f st check_face32_def)
  next
    case ok
    then have r: "\<not> reads_outside (map exact_point points) (p0, p1, p2, p3)"
      by (simp only: reads_outside_tuple len) linarith
    show ?thesis unfolding f st using r check_face32_inside[OF ok] by simp
  qed
qed

lemma faces_of_pair32_flat:
  "faces_of_pair32 points adjGraph p0 pr st
     = foldM (check_face32 points) (candidates_of_pair adjGraph p0 pr) st"
proof -
  obtain p1 p3 where pr: "pr = (p1, p3)" by (cases pr)
  have "foldM (\<lambda>p2 st'. if p2 \<noteq> p0 \<and> p2 \<in> set adj3
                         then check_face32 points (p0, p1, p2, p3) st' else Some st') adj1 st
        = foldM (check_face32 points)
            (map (\<lambda>p2. (p0, p1, p2, p3)) (filter (\<lambda>p2. p2 \<noteq> p0 \<and> p2 \<in> set adj3) adj1)) st"
    for adj1 adj3
    by (rule foldM_filter_map[where f = "check_face32 points" and h = "\<lambda>p2. (p0, p1, p2, p3)"])
  then show ?thesis
    by (simp add: pr faces_of_pair32_def candidates_of_pair_def split: option.splits)
qed

lemma faces_of_point32_flat:
  "faces_of_point32 points adjGraph p0 st
     = foldM (check_face32 points) (candidates_of_point adjGraph p0) st"
proof (cases "adjGraph p0")
  case None
  then show ?thesis by (simp add: faces_of_point32_def candidates_of_point_def)
next
  case (Some ns)
  have "faces_of_pair32 points adjGraph p0
          = (\<lambda>pr s. foldM (check_face32 points) (candidates_of_pair adjGraph p0 pr) s)"
    by (intro ext) (rule faces_of_pair32_flat)
  then show ?thesis using Some
    by (simp add: faces_of_point32_def candidates_of_point_def foldM_concat_map)
qed

lemma findValidFaces32_flat:
  "findValidFaces32 points adjGraph
     = map_option fst (foldM (check_face32 points)
         (faceCandidates (map exact_point points) adjGraph) ([], {}))"
proof -
  have "faces_of_point32 points adjGraph
          = (\<lambda>p0 s. foldM (check_face32 points) (candidates_of_point adjGraph p0) s)"
    by (intro ext) (rule faces_of_point32_flat)
  then show ?thesis
    by (simp only: findValidFaces32_def faceCandidates_def foldM_concat_map length_map)
qed

lemma findValidFaces32_eq:
  "findValidFaces32 points adjGraph =
     (if \<exists>c \<in> set (faceCandidates (map exact_point points) adjGraph).
           reads_outside (map exact_point points) c then None
      else Some (first_occurrences sortedFace
                   (filter (passes_checks32 points) (faceCandidates (map exact_point points) adjGraph))))"
proof -
  have "check_face32 points
          = (\<lambda>c s. if reads_outside (map exact_point points) c then None
                    else Some (keep_new sortedFace (passes_checks32 points) c s))"
    by (intro ext) (rule check_face32_eq)
  then show ?thesis
    by (simp add: findValidFaces32_flat foldM_total fold_keep_new)
qed

lemma face_passes_checks32:
  assumes "findValidFaces32 points adjGraph = Some faces" and "f \<in> set faces"
  shows "passes_checks32 points f"
proof -
  let ?cs = "filter (passes_checks32 points) (faceCandidates (map exact_point points) adjGraph)"
  have "faces = first_occurrences sortedFace ?cs"
    using assms(1) by (simp add: findValidFaces32_eq split: if_splits)
  then have "set faces \<subseteq> set ?cs"
    by (simp only: set_first_occurrences)
  then have "f \<in> set ?cs" using assms(2) by (rule subsetD)
  then show ?thesis by simp
qed

subsection \<open>Rounding never brings the scaled longest edge below an edge\<close>

lemma round32_nonneg: "0 \<le> y \<Longrightarrow> gridded (round32 y)"
proof -
  assume y: "0 \<le> y"
  show ?thesis
  proof (cases "y = 0")
    case True
    then show ?thesis by (simp add: round32_def gridded_iff)
  next
    case False
    then have p: "0 < y" using y by simp
    then have r: "round32 y = (if 2 powi 128 \<le> rounded y then PInf else Finite (rounded y))"
      by (simp only: round32_def round_pos_rounded) simp
    show ?thesis
    proof (cases "rounded y = 0")
      case True
      then show ?thesis by (simp add: r gridded_iff)
    next
      case False
      then have "0 < rounded y" using rounded_nonneg[OF y] by simp
      then have "on_grid (rounded y)" by (rule rounded_on_grid[OF p])
      then show ?thesis by (simp add: r gridded_iff)
    qed
  qed
qed

lemma gridded_nonneg: "gridded x \<Longrightarrow> nonneg32 x"
  by (auto simp: gridded_iff nonneg32_iff on_grid_iff)

lemma fmul_self_gridded: "gridded (fmul x x)"
proof (cases x)
  case (Finite v)
  have "0 \<le> v * v" by simp
  then show ?thesis unfolding Finite fmul.simps by (rule round32_nonneg)
qed (simp_all add: gridded_iff)

lemma gridded_simps: "gridded NaN" "gridded PInf" "gridded (Finite 0)"
  by (simp_all add: gridded_iff)

lemma fadd_gridded:
  assumes "nonneg32 a" and "nonneg32 b"
  shows "gridded (fadd a b)"
  using assms by (cases a; cases b) (simp_all add: nonneg32_iff round32_nonneg gridded_simps)

lemma lengthSquared32_gridded: "gridded (lengthSquared32 v)"
proof -
  obtain x y z where v: "v = (x, y, z)" by (cases v)
  have "gridded (fadd (fmul x x) (fmul y y))"
    by (intro fadd_gridded gridded_nonneg fmul_self_gridded)
  then show ?thesis
    unfolding v lengthSquared32.simps
    by (intro fadd_gridded gridded_nonneg fmul_self_gridded)
qed

lemma fless_simps [simp]: "\<not> fless PInf d" "\<not> fless d NaN" "\<not> fless NaN d" "\<not> fless d MInf"
  by (cases d; simp)+

text \<open>
  A value that the longest squared edge is not below is not above the rounded product of the
  longest squared edge and \<^verbatim>\<open>1.01f\<close> either.
\<close>

lemma scaled_not_below:
  assumes g: "gridded m" and n: "\<not> fless m d"
  shows "\<not> fless (fmul m factor32) d"
proof -
  consider "m = NaN" | "m = PInf" | "m = Finite 0" | v where "m = Finite v" "on_grid v"
    using g unfolding gridded_iff by blast
  then show ?thesis
  proof cases
    case 1 then show ?thesis by simp
  next
    case 2 then show ?thesis by (simp add: factor32_value)
  next
    case 3 then show ?thesis using n by (simp add: factor32_value round32_def)
  next
    case 4
    let ?y = "v * (4236247 / 4194304)"
    have v: "0 < v" using 4(2) by (simp add: on_grid_iff)
    then have le: "v \<le> ?y" by simp
    have p: "0 < ?y" using v by simp
    have w: "v \<le> rounded ?y" by (rule rounded_above_grid[OF 4(2) le])
    have r: "fmul m factor32 = (if 2 powi 128 \<le> rounded ?y then PInf else Finite (rounded ?y))"
      using p by (simp only: 4(1) factor32_value fmul.simps round32_def round_pos_rounded) simp
    show ?thesis
    proof (cases "2 powi 128 \<le> rounded ?y")
      case True
      then show ?thesis by (simp add: r)
    next
      case False
      then have r': "fmul m factor32 = Finite (rounded ?y)" by (simp add: r)
      have n': "\<not> fless (Finite v) d" using n unfolding 4(1) .
      show ?thesis
      proof (cases d)
        case (Finite u)
        then have "u \<le> v" using n' by (simp add: Finite)
        then show ?thesis using w by (simp add: r' Finite)
      next
        case PInf
        then show ?thesis using n' by (simp add: PInf)
      qed simp_all
    qed
  qed
qed

lemma fless_irrefl: "\<not> fless x x"
  by (cases x) simp_all

lemma std_max_keeps_bound:
  assumes "\<not> fless m e"
  shows "\<not> fless (std_max m x) e"
  using assms unfolding std_max_def by (cases m; cases x; cases e) (simp_all split: if_splits)

lemma std_max_not_below_new: "\<not> fless (std_max m x) x"
  unfolding std_max_def by (simp add: fless_irrefl)

lemma max_edge_not_below:
  fixes a b c d :: f32
  defines "m \<equiv> std_max (std_max (std_max a b) c) d"
  shows "\<not> fless m a" "\<not> fless m b" "\<not> fless m c" "\<not> fless m d"
  unfolding m_def
  by (intro std_max_keeps_bound std_max_not_below_new fless_irrefl)+

lemma max_edge_gridded:
  assumes "gridded a" "gridded b" "gridded c" "gridded d"
  shows "gridded (std_max (std_max (std_max a b) c) d)"
  using assms by (simp add: std_max_def)

lemma round32_minus: "round32 (- z) = fneg (round32 z)"
proof -
  have "fneg (fneg x) = x" for x by (cases x) simp_all
  then show ?thesis by (simp add: round32_def)
qed

lemma fsub_swap: "fsub y x = fneg (fsub x y)"
proof (cases x; cases y)
  fix a b assume "x = Finite a" "y = Finite b"
  then show ?thesis using round32_minus[of "a - b"] by (simp add: fsub_def)
qed (simp_all add: fsub_def)

lemma fmul_fneg: "fmul (fneg x) (fneg x) = fmul x x"
  by (cases x) simp_all

lemma lengthSquared32_swap: "lengthSquared32 (vsub32 a b) = lengthSquared32 (vsub32 b a)"
proof -
  obtain x1 y1 z1 where a: "a = (x1, y1, z1)" by (cases a)
  obtain x2 y2 z2 where b: "b = (x2, y2, z2)" by (cases b)
  have "fmul (fsub x1 x2) (fsub x1 x2) = fmul (fsub x2 x1) (fsub x2 x1)" for x1 x2
    using fmul_fneg[of "fsub x2 x1"] fsub_swap[of x1 x2] by simp
  then show ?thesis
    unfolding a b vsub32.simps lengthSquared32.simps by simp
qed

lemma fsub_self: "fsub x x = Finite 0 \<or> fsub x x = NaN"
  by (cases x) (simp_all add: fsub_def round32_def)

lemma lengthSquared32_self:
  "lengthSquared32 (vsub32 a a) = Finite 0 \<or> lengthSquared32 (vsub32 a a) = NaN"
proof -
  obtain x y z where a: "a = (x, y, z)" by (cases a)
  show ?thesis
    unfolding a vsub32.simps lengthSquared32.simps
    using fsub_self[of x] fsub_self[of y] fsub_self[of z]
    by (auto simp: round32_def)
qed

lemma edge_sq32_simps:
  "gridded (edge_sq32 points a b)" "edge_sq32 points a b = edge_sq32 points b a"
  "edge_sq32 points a a = Finite 0 \<or> edge_sq32 points a a = NaN"
  unfolding edge_sq32_def
  by (rule lengthSquared32_gridded, rule lengthSquared32_swap, rule lengthSquared32_self)

text \<open>
  A repeated index makes a squared diagonal the same binary32 value as a squared edge, or
  the squared length of a vector minus itself, which is 0 or NaN; the comparison with the
  scaled longest squared edge rejects both.
\<close>

lemma passes_checks32_distinct:
  assumes "passes_checks32 points (p0, p1, p2, p3)"
  shows "distinct [p0, p1, p2, p3]"
proof -
  let ?m = "max_edge_sq32 points (p0, p1, p2, p3)"
  have g: "gridded ?m"
    unfolding max_edge_sq32_tuple by (intro max_edge_gridded edge_sq32_simps(1))
  note nb = max_edge_not_below[of "edge_sq32 points p0 p1" "edge_sq32 points p1 p2"
      "edge_sq32 points p2 p3" "edge_sq32 points p3 p0", folded max_edge_sq32_tuple]
  have d02: "fless (fmul ?m factor32) (edge_sq32 points p0 p2)"
    and d13: "fless (fmul ?m factor32) (edge_sq32 points p1 p3)"
    using assms by (simp_all only: passes_checks32_tuple)
  have b02: "fless ?m (edge_sq32 points p0 p2)" using scaled_not_below[OF g] d02 by blast
  have b13: "fless ?m (edge_sq32 points p1 p3)" using scaled_not_below[OF g] d13 by blast
  have z: "\<not> fless ?m (Finite 0)" "\<not> fless ?m NaN"
    using gridded_nonneg[OF g] by (auto simp: nonneg32_iff)
  have "p0 \<noteq> p1" using b02 nb(2) by auto
  moreover have "p0 \<noteq> p2" using b02 z edge_sq32_simps(3)[of points p0] by auto
  moreover have "p0 \<noteq> p3" using b02 nb(3) edge_sq32_simps(2)[of points p2 p3] by auto
  moreover have "p1 \<noteq> p2" using b02 nb(1) by auto
  moreover have "p1 \<noteq> p3" using b13 z edge_sq32_simps(3)[of points p1] by auto
  moreover have "p2 \<noteq> p3" using b02 nb(4) edge_sq32_simps(2)[of points p3 p0] by auto
  ultimately show ?thesis by simp
qed


lemmas face32_eval = findValidFaces32_eq faceCandidates_def candidates_of_point_def
  candidates_of_pair_def passes_checks32_tuple volume32_tuple max_edge_sq32_tuple reads_outside_tuple
  edge_sq32_def position32_def mesh_point32_def sortedFace_tuple upt_rec f32_ops

subsection \<open>Face validity\<close>

text \<open>
  C2, as the specification states it, fails. The four points of \<open>skew_points\<close> have integer
  coordinates, which are binary32 numbers. On the 4-cycle through them findValidFaces emits
  the face (0, 1, 2, 3): the code computes the triple product 0 and finds both squared
  diagonals above the scaled longest squared edge. The exact triple product is 103, which is
  not below 1/1000 in absolute value, and the exact squared diagonal p1-p3, 18728003, does not
  exceed 1.01 times the exact longest squared edge, 18542578.
\<close>

theorem face_validity_not_exact:
  "findValidFaces32 skew_points cycle_graph = Some [(0, 1, 2, 3)] \<and>
   map binary32_point skew_points = [True, True, True, True] \<and>
   \<not> \<bar>dotProduct (vsub (position (map exact_point skew_points) 1)
                          (position (map exact_point skew_points) 0))
          (crossProduct (vsub (position (map exact_point skew_points) 2)
                              (position (map exact_point skew_points) 0))
                        (vsub (position (map exact_point skew_points) 3)
                              (position (map exact_point skew_points) 0)))\<bar> < 1 / 1000 \<and>
   \<not> edge_sq (map exact_point skew_points) 1 3
       > 101 / 100 * Max {edge_sq (map exact_point skew_points) 0 1,
                          edge_sq (map exact_point skew_points) 1 2,
                          edge_sq (map exact_point skew_points) 2 3,
                          edge_sq (map exact_point skew_points) 3 0}"
proof -
  have f: "findValidFaces32 skew_points cycle_graph = Some [(0, 1, 2, 3)]"
    by (simp add: face32_eval skew_points_def cycle_graph_def)
  have b: "map binary32_point skew_points = [True, True, True, True]"
    by (simp add: skew_points_def mesh_point32_def binary32_point_def is_binary32_def f32_eval)
  have x: "map exact_point skew_points
             = [mesh_point 0 0 0 2, mesh_point (- 2941) (- 2916) 1179 2,
                mesh_point (- 7094) (- 1823) 1217 2, mesh_point (- 4164) 1077 44 2]"
    by (simp add: skew_points_def mesh_point32_def exact_point_def mesh_point_def)
  have v: "\<not> \<bar>dotProduct (vsub (position (map exact_point skew_points) 1)
                          (position (map exact_point skew_points) 0))
          (crossProduct (vsub (position (map exact_point skew_points) 2)
                              (position (map exact_point skew_points) 0))
                        (vsub (position (map exact_point skew_points) 3)
                              (position (map exact_point skew_points) 0)))\<bar> < 1 / 1000"
    unfolding x by (simp add: position_def mesh_point_def)
  have d: "\<not> edge_sq (map exact_point skew_points) 1 3
       > 101 / 100 * Max {edge_sq (map exact_point skew_points) 0 1,
                          edge_sq (map exact_point skew_points) 1 2,
                          edge_sq (map exact_point skew_points) 2 3,
                          edge_sq (map exact_point skew_points) 3 0}"
    unfolding x by (simp add: edge_sq_def position_def mesh_point_def)
  show ?thesis using f b v d by (intro conjI)
qed

text \<open>
  C2 (face validity), amended to the values the code computes: for any points and any graph
  (self-edges and repeated vertices included), every face that findValidFaces returns has four
  pairwise different indices, all inside the point sequence; the scalar triple product of the
  vectors from its first vertex to the other three, computed in 32-bit floating point, is
  below \<^verbatim>\<open>1e-3f\<close> in absolute value; and each squared diagonal (p0-p2 and p1-p3), computed
  in 32-bit floating point, exceeds the rounded product of the largest of the four computed
  squared edge lengths and \<^verbatim>\<open>1.01f\<close>. The function returns normally whenever no adjacency
  set holds a negative index.
\<close>

theorem face_validity_binary32:
  "(nonneg_graph adjGraph \<longrightarrow> findValidFaces32 points adjGraph \<noteq> None) \<and>
   (\<forall>faces. findValidFaces32 points adjGraph = Some faces \<longrightarrow>
      (\<forall>(p0, p1, p2, p3) \<in> set faces.
         distinct [p0, p1, p2, p3] \<and>
         (\<forall>k \<in> {p0, p1, p2, p3}. 0 \<le> k \<and> k < int (length points)) \<and>
         fless (fabs (dotProduct32 (vsub32 (position32 points p1) (position32 points p0))
                        (crossProduct32 (vsub32 (position32 points p2) (position32 points p0))
                                        (vsub32 (position32 points p3) (position32 points p0)))))
               tolerance32 \<and>
         fless (fmul (std_max (std_max (std_max (edge_sq32 points p0 p1) (edge_sq32 points p1 p2))
                                 (edge_sq32 points p2 p3)) (edge_sq32 points p3 p0)) factor32)
               (edge_sq32 points p0 p2) \<and>
         fless (fmul (std_max (std_max (std_max (edge_sq32 points p0 p1) (edge_sq32 points p1 p2))
                                 (edge_sq32 points p2 p3)) (edge_sq32 points p3 p0)) factor32)
               (edge_sq32 points p1 p3)))"
proof (intro conjI impI allI)
  assume "nonneg_graph adjGraph"
  then have "\<not> (\<exists>c \<in> set (faceCandidates (map exact_point points) adjGraph).
                reads_outside (map exact_point points) c)"
    using nonneg_graph_defined by blast
  then show "findValidFaces32 points adjGraph \<noteq> None"
    by (simp add: findValidFaces32_eq)
next
  fix faces
  assume fv: "findValidFaces32 points adjGraph = Some faces"
  show "\<forall>(p0, p1, p2, p3) \<in> set faces.
         distinct [p0, p1, p2, p3] \<and>
         (\<forall>k \<in> {p0, p1, p2, p3}. 0 \<le> k \<and> k < int (length points)) \<and>
         fless (fabs (dotProduct32 (vsub32 (position32 points p1) (position32 points p0))
                        (crossProduct32 (vsub32 (position32 points p2) (position32 points p0))
                                        (vsub32 (position32 points p3) (position32 points p0)))))
               tolerance32 \<and>
         fless (fmul (std_max (std_max (std_max (edge_sq32 points p0 p1) (edge_sq32 points p1 p2))
                                 (edge_sq32 points p2 p3)) (edge_sq32 points p3 p0)) factor32)
               (edge_sq32 points p0 p2) \<and>
         fless (fmul (std_max (std_max (std_max (edge_sq32 points p0 p1) (edge_sq32 points p1 p2))
                                 (edge_sq32 points p2 p3)) (edge_sq32 points p3 p0)) factor32)
               (edge_sq32 points p1 p3)"
  proof (intro ballI, clarify)
    fix p0 p1 p2 p3
    assume "(p0, p1, p2, p3) \<in> set faces"
    then have p: "passes_checks32 points (p0, p1, p2, p3)"
      using face_passes_checks32[OF fv] by blast
    have r: "\<forall>k \<in> {p0, p1, p2, p3}. 0 \<le> k \<and> k < int (length points)"
      using p by (simp only: passes_checks32_tuple) simp
    show "distinct [p0, p1, p2, p3] \<and>
         (\<forall>k \<in> {p0, p1, p2, p3}. 0 \<le> k \<and> k < int (length points)) \<and>
         fless (fabs (dotProduct32 (vsub32 (position32 points p1) (position32 points p0))
                        (crossProduct32 (vsub32 (position32 points p2) (position32 points p0))
                                        (vsub32 (position32 points p3) (position32 points p0)))))
               tolerance32 \<and>
         fless (fmul (std_max (std_max (std_max (edge_sq32 points p0 p1) (edge_sq32 points p1 p2))
                                 (edge_sq32 points p2 p3)) (edge_sq32 points p3 p0)) factor32)
               (edge_sq32 points p0 p2) \<and>
         fless (fmul (std_max (std_max (std_max (edge_sq32 points p0 p1) (edge_sq32 points p1 p2))
                                 (edge_sq32 points p2 p3)) (edge_sq32 points p3 p0)) factor32)
               (edge_sq32 points p1 p3)"
      using passes_checks32_distinct[OF p] r
        p[unfolded passes_checks32_tuple volume32_tuple max_edge_sq32_tuple]
      by (intro conjI) (simp_all only:)
  qed
qed

theorem face_validity_binary32_witness:
  "nonneg_graph turned_graph \<and>
   findValidFaces32 near_planar_points turned_graph = Some [(0, 3, 2, 1)] \<and>
   edge_sq32 near_planar_points 0 2 = Finite 14625516 \<and>
   fless (fmul (std_max (std_max (std_max (edge_sq32 near_planar_points 0 3) (edge_sq32 near_planar_points 3 2))
                           (edge_sq32 near_planar_points 2 1)) (edge_sq32 near_planar_points 1 0))
               factor32)
         (edge_sq32 near_planar_points 0 2)"
proof -
  have n: "nonneg_graph turned_graph"
    by (auto simp: nonneg_graph_def turned_graph_def split: if_splits)
  have f: "findValidFaces32 near_planar_points turned_graph = Some [(0, 3, 2, 1)]"
    by (simp add: face32_eval near_planar_points_def turned_graph_def)
  have e: "edge_sq32 near_planar_points 0 2 = Finite 14625516"
    by (simp add: face32_eval near_planar_points_def)
  show ?thesis
    using face_validity_binary32[of turned_graph near_planar_points] n f e by simp
qed
end
